theory Spec2Isabelle
  imports Main "HOL-Library.AList"
begin

section \<open>The process lifecycle orchestrator of \<^verbatim>\<open>src/mod.ts\<close>\<close>

text \<open>
  This theory embeds the class \<^verbatim>\<open>ProcessLifecycle\<close> of \<^verbatim>\<open>src/mod.ts\<close>: its
  private fields become the fields of a record, its methods become functions that take the
  instance and return the updated one, and every \<^verbatim>\<open>throw\<close> becomes a value.

  What the embedding abstracts:
  \<^item> Time. The expression
    \<^verbatim>\<open>await Promise.race([callable(...), timeout(...).then(() => "timeout"), globalTimeout])\<close>
    settles in one of four ways, and which one is an input of the model (a
    \<open>settlement\<close>): the callable resolves first, the callable throws or rejects first,
    the per-service timer resolves first, the global timer resolves first. The list
    \<^verbatim>\<open>timeouts\<close> of timer cancellers has no effect on anything the model observes and
    is left out.
  \<^item> Interleaving. A call of the API runs to its end before the next one starts. Service
    callables and event handlers do not call back into the instance; a boot callable reads
    it through the getters (\<open>handle\<close>).
  \<^item> Event handlers are synchronous: a handler returns or throws.
  A ghost field \<open>trace\<close> records every invocation of an event handler and of a service
  callable, in the order in which they happen.
\<close>

subsection \<open>Values, errors and events\<close>

datatype jsval = Undefined | Num int | Str string

text \<open>
  Thrown values: instances of \<^verbatim>\<open>Error\<close> and of the exported subclass
  \<^verbatim>\<open>GlobalTimeoutExceededError\<close>, each with its message.
\<close>

datatype jserror = Error string | GlobalTimeoutExceededError string

fun instanceofGlobalTimeoutExceededError :: "jserror \<Rightarrow> bool" where
  "instanceofGlobalTimeoutExceededError (GlobalTimeoutExceededError m) = True"
| "instanceofGlobalTimeoutExceededError (Error m) = False"

datatype mode = ModeBoot | ModeShutdown

datatype event_key =
    bootStarted | bootEnded | shutdownStarted | shutdownEnded
  | bootServiceStarted | bootServiceEnded | shutdownServiceStarted | shutdownServiceEnded

text \<open>The template strings \<^verbatim>\<open>`${mode}Started`\<close> and the three others.\<close>

fun modeStarted :: "mode \<Rightarrow> event_key" where
  "modeStarted ModeBoot = bootStarted"
| "modeStarted ModeShutdown = shutdownStarted"

fun modeEnded :: "mode \<Rightarrow> event_key" where
  "modeEnded ModeBoot = bootEnded"
| "modeEnded ModeShutdown = shutdownEnded"

fun modeServiceStarted :: "mode \<Rightarrow> event_key" where
  "modeServiceStarted ModeBoot = bootServiceStarted"
| "modeServiceStarted ModeShutdown = shutdownServiceStarted"

fun modeServiceEnded :: "mode \<Rightarrow> event_key" where
  "modeServiceEnded ModeBoot = bootServiceEnded"
| "modeServiceEnded ModeShutdown = shutdownServiceEnded"

text \<open>
  The argument of a handler: nothing for \<^verbatim>\<open>{mode}Started\<close>, \<^verbatim>\<open>{ error? }\<close> for
  \<^verbatim>\<open>{mode}Ended\<close>, \<^verbatim>\<open>{ name, error? }\<close> for the two service events.
\<close>

datatype payload = NoArgs | Result "jserror option" | Service string "jserror option"

text \<open>A handler returns (\<open>None\<close>) or throws (\<open>Some e\<close>).\<close>

type_synonym handler = "payload \<Rightarrow> jserror option"

subsection \<open>Service registrations\<close>

text \<open>How the race of one step settles (see the abstraction of time above).\<close>

datatype settlement = Resolves jsval | Rejects jserror | TimeoutFirst | GlobalTimeoutFirst

text \<open>
  The value of \<^verbatim>\<open>await Promise.race([...])\<close>: the timers resolve with the strings
  \<^verbatim>\<open>"timeout"\<close> and \<^verbatim>\<open>"global-timeout"\<close>; a rejection is thrown by the \<^verbatim>\<open>await\<close>.
\<close>

fun race :: "settlement \<Rightarrow> jserror + jsval" where
  "race (Resolves v) = Inr v"
| "race (Rejects e) = Inl e"
| "race TimeoutFirst = Inr (Str ''timeout'')"
| "race GlobalTimeoutFirst = Inr (Str ''global-timeout'')"

text \<open>What a boot callable can read of the instance it is given: the public getters.\<close>

record handle =
  hd_services :: "(string \<times> jsval) list"
  hd_booted :: bool
  hd_aborted :: bool

record service_registration =
  name :: string
  boot :: "handle \<Rightarrow> settlement"
  shutdown :: "jsval \<Rightarrow> settlement"
  timeout :: "nat option"

text \<open>
  An optional key of an options object, as the caller gives it: the key is absent, or it is
  present with a value, which is a number or \<^verbatim>\<open>undefined\<close> (\<open>None\<close>).
\<close>

datatype optional_number = Absent | Present "nat option"

text \<open>
  \<^verbatim>\<open>ProcessLifecycleOptions\<close>, with values of type \<open>optional_number\<close> for the object that
  the constructor is given, and of type \<open>nat option\<close> for the object that the instance
  keeps, in which both keys are present.
\<close>

record 'a process_lifecycle_options =
  shutdownTimeout :: 'a
  bootTimeout :: 'a

datatype promise = Fulfilled | Rejected jserror

datatype call =
    Handler event_key payload
  | BootCall string handle settlement
  | ShutdownCall string jsval settlement

subsection \<open>The instance\<close>

record process_lifecycle =
  aborted :: bool
  serviceRegistrationsStaged :: "service_registration list"
  serviceRegistrations :: "service_registration list"
  services :: "(string \<times> jsval) list"
  options :: "nat option process_lifecycle_options"
  booted :: bool
  eventsHandlers :: "event_key \<Rightarrow> handler option"
  bootProcess :: "promise option"
  shutdownProcess :: "promise option"
  trace :: "call list"

text \<open>
  One key of the object spread \<^verbatim>\<open>{ key: default, ...options }\<close> of lines 94 to 98: a key
  that is present in \<^verbatim>\<open>options\<close> overrides the default, also when its value is
  \<^verbatim>\<open>undefined\<close>.
\<close>

fun spread :: "nat \<Rightarrow> optional_number \<Rightarrow> nat option" where
  "spread d Absent = Some d"
| "spread d (Present v) = v"

text \<open>The constructor; \<open>None\<close> is a call without options.\<close>

definition ProcessLifecycle ::
  "optional_number process_lifecycle_options option \<Rightarrow> process_lifecycle" where
  "ProcessLifecycle opts =
     \<lparr> aborted = False,
       serviceRegistrationsStaged = [],
       serviceRegistrations = [],
       services = [],
       options =
         (case opts of
            None \<Rightarrow> \<lparr> shutdownTimeout = Some 15000, bootTimeout = Some 15000 \<rparr>
          | Some given \<Rightarrow>
              \<lparr> shutdownTimeout = spread 15000 (shutdownTimeout given),
                bootTimeout = spread 15000 (bootTimeout given) \<rparr>),
       booted = False,
       eventsHandlers = (\<lambda>event. None),
       bootProcess = None,
       shutdownProcess = None,
       trace = [] \<rparr>"

definition on :: "event_key \<Rightarrow> handler \<Rightarrow> process_lifecycle \<Rightarrow> process_lifecycle" where
  "on event fn st = st\<lparr> eventsHandlers := (eventsHandlers st)(event := Some fn) \<rparr>"

text \<open>\<^verbatim>\<open>Map.get\<close> gives \<^verbatim>\<open>undefined\<close> for a key that is absent.\<close>

definition getService :: "process_lifecycle \<Rightarrow> string \<Rightarrow> jsval" where
  "getService st n = (case map_of (services st) n of None \<Rightarrow> Undefined | Some v \<Rightarrow> v)"

definition registerService :: "service_registration \<Rightarrow> process_lifecycle \<Rightarrow> process_lifecycle" where
  "registerService serviceRegistration st =
     (if aborted st then st
      else st\<lparr> serviceRegistrationsStaged :=
                 serviceRegistrationsStaged st @
                   [serviceRegistration\<lparr> timeout :=
                      (case timeout serviceRegistration of None \<Rightarrow> Some 5000 | Some t \<Rightarrow> Some t) \<rparr>] \<rparr>)"

definition getHandler :: "process_lifecycle \<Rightarrow> event_key \<Rightarrow> handler option" where
  "getHandler st event = eventsHandlers st event"

text \<open>
  \<^verbatim>\<open>this.#getHandler(event)?.(payload)\<close>: nothing happens when no handler is registered;
  a registered handler is called, and what it throws is thrown by the call.
\<close>

definition callHandler ::
  "event_key \<Rightarrow> payload \<Rightarrow> process_lifecycle \<Rightarrow> process_lifecycle \<times> jserror option" where
  "callHandler event p st =
     (case getHandler st event of
        None \<Rightarrow> (st, None)
      | Some fn \<Rightarrow> (st\<lparr> trace := trace st @ [Handler event p] \<rparr>, fn p))"

definition handleOf :: "process_lifecycle \<Rightarrow> handle" where
  "handleOf st = \<lparr> hd_services = services st, hd_booted = booted st, hd_aborted = aborted st \<rparr>"

subsection \<open>The lifecycle runner\<close>

text \<open>
  The first element of the race (lines 180 to 184): the shutdown callable on the stored
  value of the name, or the boot callable on the instance. \<open>callOf\<close> is the entry that
  the invocation leaves in the trace.
\<close>

definition callService :: "mode \<Rightarrow> service_registration \<Rightarrow> process_lifecycle \<Rightarrow> settlement" where
  "callService m r st =
     (if m = ModeShutdown then shutdown r (getService st (name r)) else boot r (handleOf st))"

definition callOf :: "mode \<Rightarrow> service_registration \<Rightarrow> process_lifecycle \<Rightarrow> call" where
  "callOf m r st =
     (if m = ModeShutdown
      then ShutdownCall (name r) (getService st (name r)) (callService m r st)
      else BootCall (name r) (handleOf st) (callService m r st))"

definition invoke ::
  "mode \<Rightarrow> service_registration \<Rightarrow> process_lifecycle \<Rightarrow> process_lifecycle \<times> settlement" where
  "invoke m r st = (st\<lparr> trace := trace st @ [callOf m r st] \<rparr>, callService m r st)"

text \<open>
  Lines 179 to 198: the \<^verbatim>\<open>await\<close> of the race throws the rejection of the callable;
  the response \<^verbatim>\<open>"timeout"\<close> is turned into a thrown \<^verbatim>\<open>Error\<close> and the response
  \<^verbatim>\<open>"global-timeout"\<close> into a thrown \<^verbatim>\<open>GlobalTimeoutExceededError\<close>; any other
  response is the result of the step. \<open>Inl\<close> is what is thrown.
\<close>

definition awaitRace :: "settlement \<Rightarrow> jserror + jsval" where
  "awaitRace s =
     (case race s of
        Inl e \<Rightarrow> Inl e
      | Inr response \<Rightarrow>
          if response = Str ''timeout''
          then Inl (Error ''Service boot timeout exceeded'')
          else if response = Str ''global-timeout''
          then Inl (GlobalTimeoutExceededError ''Global timeout exceeded'')
          else Inr response)"

text \<open>
  The body of the inner \<^verbatim>\<open>try\<close> (lines 178 to 209). The second component is the
  exception that leaves the block, if any.
\<close>

definition tryService ::
  "mode \<Rightarrow> service_registration \<Rightarrow> process_lifecycle \<Rightarrow> process_lifecycle \<times> jserror option" where
  "tryService m r st =
     (case invoke m r st of
        (st1, s) \<Rightarrow>
          (case awaitRace s of
             Inl e \<Rightarrow> (st1, Some e)
           | Inr response \<Rightarrow>
               callHandler (modeServiceEnded m) (Service (name r) None)
                 (if m = ModeShutdown
                  then st1\<lparr> services := AList.delete (name r) (services st1) \<rparr>
                  else st1\<lparr> serviceRegistrations := serviceRegistrations st1 @ [r],
                            services := AList.update (name r) response (services st1) \<rparr>)))"

text \<open>
  The body of the \<^verbatim>\<open>for\<close> loop (lines 174 to 219). The handler of
  \<^verbatim>\<open>{mode}ServiceStarted\<close> is called outside the inner \<^verbatim>\<open>try\<close>; the inner
  \<^verbatim>\<open>catch\<close> calls the handler of \<^verbatim>\<open>{mode}ServiceEnded\<close> with the error and rethrows
  it in boot mode or when it is a \<^verbatim>\<open>GlobalTimeoutExceededError\<close>. The second component
  is the exception that leaves the body, if any.
\<close>

definition loopBody ::
  "mode \<Rightarrow> service_registration \<Rightarrow> process_lifecycle \<Rightarrow> process_lifecycle \<times> jserror option" where
  "loopBody m r st =
     (case callHandler (modeServiceStarted m) (Service (name r) None) st of
        (st1, Some e) \<Rightarrow> (st1, Some e)
      | (st1, None) \<Rightarrow>
          (case tryService m r st1 of
             (st2, None) \<Rightarrow> (st2, None)
           | (st2, Some error) \<Rightarrow>
               (case callHandler (modeServiceEnded m) (Service (name r) (Some error)) st2 of
                  (st3, Some e) \<Rightarrow> (st3, Some e)
                | (st3, None) \<Rightarrow>
                    if m = ModeBoot \<or> instanceofGlobalTimeoutExceededError error
                    then (st3, Some error)
                    else (st3, None))))"

text \<open>The \<^verbatim>\<open>for\<close> loop (lines 173 to 220): an exception that leaves the body leaves the loop.\<close>

fun serviceLoop ::
  "mode \<Rightarrow> service_registration list \<Rightarrow> process_lifecycle \<Rightarrow> process_lifecycle \<times> jserror option" where
  "serviceLoop m [] st = (st, None)"
| "serviceLoop m (r # rs) st =
     (case loopBody m r st of
        (st1, Some e) \<Rightarrow> (st1, Some e)
      | (st1, None) \<Rightarrow> serviceLoop m rs st1)"

text \<open>The body of the outer \<^verbatim>\<open>try\<close> (lines 170 to 227).\<close>

definition tryLifecycle ::
  "mode \<Rightarrow> service_registration list \<Rightarrow> process_lifecycle \<Rightarrow> process_lifecycle \<times> jserror option" where
  "tryLifecycle m regs st =
     (case callHandler (modeStarted m) NoArgs st of
        (st1, Some e) \<Rightarrow> (st1, Some e)
      | (st1, None) \<Rightarrow>
          (case serviceLoop m regs st1 of
             (st2, Some e) \<Rightarrow> (st2, Some e)
           | (st2, None) \<Rightarrow>
               callHandler (modeEnded m) (Result None) (st2\<lparr> booted := (m = ModeBoot) \<rparr>)))"

text \<open>
  \<^verbatim>\<open>#executeLifecycle\<close> (lines 155 to 238). The result is the instance afterwards and
  how the promise of the \<^verbatim>\<open>async\<close> method settles; in boot mode the outer
  \<^verbatim>\<open>catch\<close> returns the promise of a shutdown run.
\<close>

function executeLifecycle :: "mode \<Rightarrow> process_lifecycle \<Rightarrow> process_lifecycle \<times> promise" where
  "executeLifecycle m st =
     (case tryLifecycle m
             (if m = ModeShutdown then rev (serviceRegistrations st)
              else serviceRegistrationsStaged st)
             (if m = ModeShutdown then st\<lparr> aborted := True \<rparr> else st) of
        (st1, None) \<Rightarrow> (st1, Fulfilled)
      | (st1, Some error) \<Rightarrow>
          (case callHandler (modeEnded m) (Result (Some error)) st1 of
             (st2, Some e) \<Rightarrow> (st2, Rejected e)
           | (st2, None) \<Rightarrow>
               if m = ModeBoot then executeLifecycle ModeShutdown st2 else (st2, Fulfilled)))"
  by pat_completeness auto
termination
  by (relation "measure (\<lambda>(m, st). if m = ModeBoot then 1 else 0)") auto

text \<open>The two public operations, each memoised by its own pending-operation field.\<close>

definition Boot :: "process_lifecycle \<Rightarrow> process_lifecycle \<times> promise" where
  "Boot st =
     (case bootProcess st of
        Some p \<Rightarrow> (st, p)
      | None \<Rightarrow>
          (case executeLifecycle ModeBoot st of
             (st1, p) \<Rightarrow> (st1\<lparr> bootProcess := Some p \<rparr>, p)))"

definition Shutdown :: "process_lifecycle \<Rightarrow> process_lifecycle \<times> promise" where
  "Shutdown st =
     (case shutdownProcess st of
        Some p \<Rightarrow> (st, p)
      | None \<Rightarrow>
          (case executeLifecycle ModeShutdown st of
             (st1, p) \<Rightarrow> (st1\<lparr> shutdownProcess := Some p \<rparr>, p)))"

subsection \<open>Observations\<close>

text \<open>What a pass leaves alone: the staged list, the options, the handler table and the two memo fields.\<close>

definition frame ::
  "process_lifecycle \<Rightarrow>
     service_registration list \<times> nat option process_lifecycle_options \<times>
     (event_key \<Rightarrow> handler option) \<times>
     promise option \<times> promise option" where
  "frame st =
     (serviceRegistrationsStaged st, options st, eventsHandlers st, bootProcess st,
      shutdownProcess st)"

text \<open>The part of the trace of \<open>st'\<close> that was written after \<open>st\<close>.\<close>

definition since :: "process_lifecycle \<Rightarrow> process_lifecycle \<Rightarrow> call list" where
  "since st st' = drop (length (trace st)) (trace st')"

text \<open>No registered handler throws, whatever it is called with.\<close>

definition quietHandlers :: "process_lifecycle \<Rightarrow> bool" where
  "quietHandlers st = (\<forall>event fn p. eventsHandlers st event = Some fn \<longrightarrow> fn p = None)"

text \<open>What a call of a handler adds to the trace.\<close>

definition handlerTrace :: "process_lifecycle \<Rightarrow> event_key \<Rightarrow> payload \<Rightarrow> call list" where
  "handlerTrace st event p =
     (case eventsHandlers st event of None \<Rightarrow> [] | Some fn \<Rightarrow> [Handler event p])"

text \<open>
  The service callables of one mode that were invoked, in order, each with the name of its
  registration and with what the step made of the race: the error thrown there (\<open>Inl\<close>)
  or the result (\<open>Inr\<close>).
\<close>

fun outcomeOf :: "mode \<Rightarrow> call \<Rightarrow> (string \<times> (jserror + jsval)) list" where
  "outcomeOf ModeBoot (BootCall n h s) = [(n, awaitRace s)]"
| "outcomeOf ModeShutdown (ShutdownCall n v s) = [(n, awaitRace s)]"
| "outcomeOf m c = []"

definition outcomes :: "mode \<Rightarrow> call list \<Rightarrow> (string \<times> (jserror + jsval)) list" where
  "outcomes m tr = concat (map (outcomeOf m) tr)"

fun resultOf :: "string \<times> (jserror + jsval) \<Rightarrow> (string \<times> jsval) list" where
  "resultOf (n, Inr v) = [(n, v)]"
| "resultOf (n, Inl e) = []"

definition results :: "(string \<times> (jserror + jsval)) list \<Rightarrow> (string \<times> jsval) list" where
  "results outs = concat (map resultOf outs)"

fun failureOf :: "string \<times> (jserror + jsval) \<Rightarrow> (string \<times> jserror) list" where
  "failureOf (n, Inl e) = [(n, e)]"
| "failureOf (n, Inr v) = []"

definition failures :: "(string \<times> (jserror + jsval)) list \<Rightarrow> (string \<times> jserror) list" where
  "failures outs = concat (map failureOf outs)"

text \<open>The condition of line 216 on the outcome of a step: the failure ends the loop.\<close>

fun aborts :: "mode \<Rightarrow> jserror + jsval \<Rightarrow> bool" where
  "aborts m (Inl e) = (m = ModeBoot \<or> instanceofGlobalTimeoutExceededError e)"
| "aborts m (Inr v) = False"

text \<open>The shutdown callables that were invoked, each with the argument it was given.\<close>

fun shutdownCallOf :: "call \<Rightarrow> (string \<times> jsval) list" where
  "shutdownCallOf (ShutdownCall n v s) = [(n, v)]"
| "shutdownCallOf (BootCall n h s) = []"
| "shutdownCallOf (Handler event p) = []"

definition shutdownCalls :: "call list \<Rightarrow> (string \<times> jsval) list" where
  "shutdownCalls tr = concat (map shutdownCallOf tr)"

text \<open>The payloads with which the handler of one event was called.\<close>

fun payloadOf :: "event_key \<Rightarrow> call \<Rightarrow> payload list" where
  "payloadOf event (Handler ev p) = (if ev = event then [p] else [])"
| "payloadOf event (BootCall n h s) = []"
| "payloadOf event (ShutdownCall n v s) = []"

definition payloadsOf :: "event_key \<Rightarrow> call list \<Rightarrow> payload list" where
  "payloadsOf event tr = concat (map (payloadOf event) tr)"

text \<open>The errors in a list of payloads of a service event, each with the name it came with.\<close>

fun errorOf :: "payload \<Rightarrow> (string \<times> jserror) list" where
  "errorOf (Service n (Some e)) = [(n, e)]"
| "errorOf (Service n None) = []"
| "errorOf NoArgs = []"
| "errorOf (Result x) = []"

definition delivered :: "mode \<Rightarrow> call list \<Rightarrow> (string \<times> jserror) list" where
  "delivered m tr = concat (map errorOf (payloadsOf (modeServiceEnded m) tr))"

text \<open>
  The outer \<^verbatim>\<open>try\<close> of a run of \<^verbatim>\<open>#executeLifecycle\<close> on \<open>st\<close> is left by an
  exception.
\<close>

definition lifecycleAborted :: "mode \<Rightarrow> process_lifecycle \<Rightarrow> bool" where
  "lifecycleAborted m st =
     (snd (tryLifecycle m
             (if m = ModeShutdown then rev (serviceRegistrations st)
              else serviceRegistrationsStaged st)
             (if m = ModeShutdown then st\<lparr> aborted := True \<rparr> else st)) \<noteq> None)"

subsection \<open>Instances used as examples\<close>

text \<open>A handler that returns, and one that throws the given error.\<close>

definition silent :: handler where
  "silent p = None"

definition throwing :: "jserror \<Rightarrow> handler" where
  "throwing e p = Some e"

text \<open>A handler that returns on every event, as the spy of the test-suite.\<close>

definition observed :: "process_lifecycle \<Rightarrow> process_lifecycle" where
  "observed st =
     on shutdownEnded silent (on shutdownServiceEnded silent (on shutdownServiceStarted silent
     (on shutdownStarted silent (on bootEnded silent (on bootServiceEnded silent
     (on bootServiceStarted silent (on bootStarted silent st)))))))"

text \<open>A registration whose callables settle the same way whatever they are given.\<close>

definition service :: "string \<Rightarrow> settlement \<Rightarrow> settlement \<Rightarrow> service_registration" where
  "service n b s = \<lparr> name = n, boot = (\<lambda>h. b), shutdown = (\<lambda>v. s), timeout = None \<rparr>"

text \<open>\<^verbatim>\<open>foo\<close> boots to 1, then the boot callable of \<^verbatim>\<open>bar\<close> throws.\<close>

definition failedBoot :: process_lifecycle where
  "failedBoot =
     registerService (service ''bar'' (Rejects (Error ''x'')) (Resolves Undefined))
       (registerService (service ''foo'' (Resolves (Num 1)) (Resolves Undefined))
          (observed (ProcessLifecycle None)))"

text \<open>\<^verbatim>\<open>foo\<close> boots to 1 and \<^verbatim>\<open>bar\<close> to 2; both shut down without error.\<close>

definition twoServices :: process_lifecycle where
  "twoServices =
     registerService (service ''bar'' (Resolves (Num 2)) (Resolves Undefined))
       (registerService (service ''foo'' (Resolves (Num 1)) (Resolves Undefined))
          (observed (ProcessLifecycle None)))"

subsection \<open>One iteration when no handler throws\<close>

text \<open>What the step of a registration makes of the race.\<close>

definition outcome :: "mode \<Rightarrow> service_registration \<Rightarrow> process_lifecycle \<Rightarrow> jserror + jsval" where
  "outcome m r st = awaitRace (callService m r st)"

text \<open>The exception that leaves the loop body for an outcome, when the handlers return.\<close>

fun thrown :: "mode \<Rightarrow> jserror + jsval \<Rightarrow> jserror option" where
  "thrown m (Inl e) =
     (if m = ModeBoot \<or> instanceofGlobalTimeoutExceededError e then Some e else None)"
| "thrown m (Inr v) = None"

text \<open>The instance after the loop body has run for a registration and the handlers have returned.\<close>

definition stepped :: "mode \<Rightarrow> service_registration \<Rightarrow> process_lifecycle \<Rightarrow> process_lifecycle" where
  "stepped m r st =
     (case outcome m r st of
        Inl e \<Rightarrow>
          st\<lparr> trace :=
                trace st @ handlerTrace st (modeServiceStarted m) (Service (name r) None) @
                [callOf m r st] @
                handlerTrace st (modeServiceEnded m) (Service (name r) (Some e)) \<rparr>
      | Inr v \<Rightarrow>
          if m = ModeShutdown
          then st\<lparr> trace :=
                     trace st @ handlerTrace st (modeServiceStarted m) (Service (name r) None) @
                     [callOf m r st] @
                     handlerTrace st (modeServiceEnded m) (Service (name r) None),
                   services := AList.delete (name r) (services st) \<rparr>
          else st\<lparr> trace :=
                     trace st @ handlerTrace st (modeServiceStarted m) (Service (name r) None) @
                     [callOf m r st] @
                     handlerTrace st (modeServiceEnded m) (Service (name r) None),
                   serviceRegistrations := serviceRegistrations st @ [r],
                   services := AList.update (name r) v (services st) \<rparr>)"

text \<open>
  The instance when the loop of a run starts, after the handler of \<^verbatim>\<open>{mode}Started\<close> has
  returned, and the instance after the handler of \<^verbatim>\<open>{mode}Ended\<close> has returned, where
  \<open>x\<close> is the exception that left the loop, if any.
\<close>

definition started :: "mode \<Rightarrow> process_lifecycle \<Rightarrow> process_lifecycle" where
  "started m st =
     (if m = ModeShutdown
      then st\<lparr> aborted := True, trace := trace st @ handlerTrace st (modeStarted m) NoArgs \<rparr>
      else st\<lparr> trace := trace st @ handlerTrace st (modeStarted m) NoArgs \<rparr>)"

definition ended :: "mode \<Rightarrow> jserror option \<Rightarrow> process_lifecycle \<Rightarrow> process_lifecycle" where
  "ended m x st =
     (case x of
        None \<Rightarrow>
          st\<lparr> booted := (m = ModeBoot),
              trace := trace st @ handlerTrace st (modeEnded m) (Result None) \<rparr>
      | Some e \<Rightarrow> st\<lparr> trace := trace st @ handlerTrace st (modeEnded m) (Result (Some e)) \<rparr>)"

text \<open>The first outcome, in a list of outcomes, that ends the loop, as the error thrown there.\<close>

fun firstThrown :: "mode \<Rightarrow> (string \<times> (jserror + jsval)) list \<Rightarrow> jserror option" where
  "firstThrown m [] = None"
| "firstThrown m (out # outs) =
     (case thrown m (snd out) of Some e \<Rightarrow> Some e | None \<Rightarrow> firstThrown m outs)"

subsection \<open>More instances used as examples\<close>

text \<open>\<^verbatim>\<open>foo\<close> boots to 1 and \<^verbatim>\<open>bar\<close> to 2; the shutdown callable of \<^verbatim>\<open>bar\<close> throws.\<close>

definition failingShutdown :: process_lifecycle where
  "failingShutdown =
     registerService (service ''bar'' (Resolves (Num 2)) (Rejects (Error ''x'')))
       (registerService (service ''foo'' (Resolves (Num 1)) (Resolves Undefined))
          (observed (ProcessLifecycle None)))"

text \<open>
  \<^verbatim>\<open>foo\<close> boots to 1 and \<^verbatim>\<open>bar\<close> to 2; the shutdown callable of \<^verbatim>\<open>bar\<close> is still
  pending when the global shutdown timer resolves.
\<close>

definition hangingShutdown :: process_lifecycle where
  "hangingShutdown =
     registerService (service ''bar'' (Resolves (Num 2)) GlobalTimeoutFirst)
       (registerService (service ''foo'' (Resolves (Num 1)) (Resolves Undefined))
          (observed (ProcessLifecycle None)))"

text \<open>As \<open>hangingShutdown\<close>, with a third service \<^verbatim>\<open>baz\<close> whose boot callable throws.\<close>

definition hangingAfterFailedBoot :: process_lifecycle where
  "hangingAfterFailedBoot =
     registerService (service ''baz'' (Rejects (Error ''x'')) (Resolves Undefined))
       hangingShutdown"

text \<open>The boot callable of \<^verbatim>\<open>bar\<close> throws; \<^verbatim>\<open>foo\<close> is registered after it.\<close>

definition failingFirst :: process_lifecycle where
  "failingFirst =
     registerService (service ''foo'' (Resolves (Num 1)) (Resolves Undefined))
       (registerService (service ''bar'' (Rejects (Error ''x'')) (Resolves Undefined))
          (observed (ProcessLifecycle None)))"

text \<open>No service; the handler of \<^verbatim>\<open>shutdownEnded\<close> throws.\<close>

definition throwingEnded :: process_lifecycle where
  "throwingEnded = on shutdownEnded (throwing (Error ''h'')) (ProcessLifecycle None)"

text \<open>As \<open>twoServices\<close>, but the handler of \<^verbatim>\<open>bootStarted\<close> throws.\<close>

definition throwingStarted :: process_lifecycle where
  "throwingStarted = on bootStarted (throwing (Error ''h'')) twoServices"

text \<open>
  \<^verbatim>\<open>foo\<close> and \<^verbatim>\<open>bar\<close> boot; the shutdown callable of \<^verbatim>\<open>bar\<close> throws and the only
  handler, that of \<^verbatim>\<open>shutdownServiceEnded\<close>, throws too.
\<close>

definition throwingServiceEnded :: process_lifecycle where
  "throwingServiceEnded =
     registerService (service ''bar'' (Resolves (Num 2)) (Rejects (Error ''x'')))
       (registerService (service ''foo'' (Resolves (Num 1)) (Resolves Undefined))
          (on shutdownServiceEnded (throwing (Error ''h'')) (ProcessLifecycle None)))"

text \<open>Two registrations under the name \<^verbatim>\<open>foo\<close>, booting to 1 and to 2.\<close>

definition sameName :: process_lifecycle where
  "sameName =
     registerService (service ''foo'' (Resolves (Num 2)) (Resolves Undefined))
       (registerService (service ''foo'' (Resolves (Num 1)) (Resolves Undefined))
          (observed (ProcessLifecycle None)))"

text \<open>The arguments that the boot callables were given, each with the name of its registration.\<close>

fun bootArgOf :: "call \<Rightarrow> (string \<times> handle) list" where
  "bootArgOf (BootCall n h s) = [(n, h)]"
| "bootArgOf (ShutdownCall n v s) = []"
| "bootArgOf (Handler event p) = []"

definition bootArgs :: "call list \<Rightarrow> (string \<times> handle) list" where
  "bootArgs tr = concat (map bootArgOf tr)"

text \<open>
  From \<open>st\<close> to \<open>st'\<close> the trace has only grown, and no boot callable was invoked in
  between.
\<close>

definition noBootBetween :: "process_lifecycle \<Rightarrow> process_lifecycle \<Rightarrow> bool" where
  "noBootBetween st st' =
     (outcomes ModeBoot (trace st') = outcomes ModeBoot (trace st) \<and>
      bootArgs (trace st') = bootArgs (trace st) \<and>
      (\<exists>tr. trace st' = trace st @ tr))"

section \<open>Properties\<close>

subsection \<open>Unfolding the runner\<close>

declare executeLifecycle.simps [simp del]

lemma executeLifecycle_shutdown:
  "executeLifecycle ModeShutdown st =
     (case tryLifecycle ModeShutdown (rev (serviceRegistrations st)) (st\<lparr> aborted := True \<rparr>) of
        (st1, None) \<Rightarrow> (st1, Fulfilled)
      | (st1, Some error) \<Rightarrow>
          (case callHandler shutdownEnded (Result (Some error)) st1 of
             (st2, Some e) \<Rightarrow> (st2, Rejected e)
           | (st2, None) \<Rightarrow> (st2, Fulfilled)))"
  by (subst executeLifecycle.simps) simp

lemma executeLifecycle_boot:
  "executeLifecycle ModeBoot st =
     (case tryLifecycle ModeBoot (serviceRegistrationsStaged st) st of
        (st1, None) \<Rightarrow> (st1, Fulfilled)
      | (st1, Some error) \<Rightarrow>
          (case callHandler bootEnded (Result (Some error)) st1 of
             (st2, Some e) \<Rightarrow> (st2, Rejected e)
           | (st2, None) \<Rightarrow> executeLifecycle ModeShutdown st2))"
  by (subst executeLifecycle.simps) simp

subsection \<open>What the runner leaves alone\<close>

lemma callHandler_eq:
  "callHandler event p st = (st', r) \<Longrightarrow> st' = st\<lparr> trace := trace st @ handlerTrace st event p \<rparr>"
  by (auto simp: callHandler_def getHandler_def handlerTrace_def split: option.splits)

lemma callHandler_frame: "callHandler event p st = (st', r) \<Longrightarrow> frame st' = frame st"
  by (auto simp: frame_def dest!: callHandler_eq)

lemma tryService_frame: "tryService m r st = (st', x) \<Longrightarrow> frame st' = frame st"
  by (auto simp: tryService_def invoke_def frame_def split: sum.splits if_splits
      dest!: callHandler_eq)

lemma loopBody_frame: "loopBody m r st = (st', x) \<Longrightarrow> frame st' = frame st"
  by (auto simp: loopBody_def split: prod.splits option.splits if_splits
      dest!: callHandler_frame tryService_frame)

lemma serviceLoop_frame: "serviceLoop m rs st = (st', x) \<Longrightarrow> frame st' = frame st"
proof (induction rs arbitrary: st)
  case Nil
  then show ?case by simp
next
  case (Cons r rs)
  then show ?case
    by (auto split: prod.splits option.splits dest!: loopBody_frame)
qed

lemma tryLifecycle_frame: "tryLifecycle m rs st = (st', x) \<Longrightarrow> frame st' = frame st"
  by (auto simp: tryLifecycle_def split: prod.splits option.splits
      dest!: callHandler_eq serviceLoop_frame simp: frame_def)

lemma executeLifecycle_shutdown_frame:
  "executeLifecycle ModeShutdown st = (st', p) \<Longrightarrow> frame st' = frame st"
  by (auto simp: executeLifecycle_shutdown split: prod.splits option.splits
      dest!: callHandler_eq tryLifecycle_frame simp: frame_def)

lemma executeLifecycle_frame: "executeLifecycle m st = (st', p) \<Longrightarrow> frame st' = frame st"
proof (cases m)
  case ModeShutdown
  assume "executeLifecycle m st = (st', p)"
  with ModeShutdown show ?thesis by (simp add: executeLifecycle_shutdown_frame)
next
  case ModeBoot
  assume "executeLifecycle m st = (st', p)"
  with ModeBoot show ?thesis
    by (auto simp: executeLifecycle_boot split: prod.splits option.splits
        dest!: callHandler_frame tryLifecycle_frame executeLifecycle_shutdown_frame)
qed

text \<open>The flags \<open>booted\<close> and \<open>aborted\<close> are written by \<^verbatim>\<open>#executeLifecycle\<close> only.\<close>

lemma loopBody_flags:
  assumes "loopBody m r st = (st', x)"
  shows "booted st' = booted st" and "aborted st' = aborted st"
  using assms
  by (auto simp: loopBody_def tryService_def invoke_def
      split: prod.splits option.splits sum.splits if_splits dest!: callHandler_eq)

lemma serviceLoop_flags:
  "serviceLoop m rs st = (st', x) \<Longrightarrow> booted st' = booted st \<and> aborted st' = aborted st"
proof (induction rs arbitrary: st)
  case Nil
  then show ?case by simp
next
  case (Cons r rs)
  show ?case
  proof (cases "loopBody m r st")
    case (Pair st1 y)
    note flags = loopBody_flags [OF Pair]
    show ?thesis
    proof (cases y)
      case None
      with Cons.prems Pair have "serviceLoop m rs st1 = (st', x)" by simp
      from Cons.IH [OF this] flags show ?thesis by simp
    next
      case (Some e)
      with Cons.prems Pair have "st' = st1" by simp
      with flags show ?thesis by simp
    qed
  qed
qed

text \<open>A shutdown pass keeps the active list and only removes entries from the results.\<close>

lemma loopBody_shutdown_fields:
  "loopBody ModeShutdown r st = (st', x) \<Longrightarrow>
     serviceRegistrations st' = serviceRegistrations st \<and>
     set (services st') \<subseteq> set (services st)"
  by (auto simp: loopBody_def tryService_def invoke_def AList.delete_eq
      split: prod.splits option.splits sum.splits if_splits dest!: callHandler_eq)

lemma serviceLoop_shutdown_fields:
  "serviceLoop ModeShutdown rs st = (st', x) \<Longrightarrow>
     serviceRegistrations st' = serviceRegistrations st \<and>
     set (services st') \<subseteq> set (services st)"
proof (induction rs arbitrary: st)
  case Nil
  then show ?case by simp
next
  case (Cons r rs)
  show ?case
  proof (cases "loopBody ModeShutdown r st")
    case (Pair st1 y)
    note fields = loopBody_shutdown_fields [OF Pair]
    show ?thesis
    proof (cases y)
      case None
      with Cons.prems Pair have "serviceLoop ModeShutdown rs st1 = (st', x)" by simp
      from Cons.IH [OF this] fields show ?thesis by auto
    next
      case (Some e)
      with Cons.prems Pair have "st' = st1" by simp
      with fields show ?thesis by simp
    qed
  qed
qed

lemma tryLifecycle_shutdown_fields:
  "tryLifecycle ModeShutdown rs st = (st', x) \<Longrightarrow>
     serviceRegistrations st' = serviceRegistrations st \<and>
     set (services st') \<subseteq> set (services st)"
  by (auto simp: tryLifecycle_def split: prod.splits option.splits
      dest!: callHandler_eq serviceLoop_shutdown_fields)

lemma executeLifecycle_shutdown_fields:
  "executeLifecycle ModeShutdown st = (st', p) \<Longrightarrow>
     serviceRegistrations st' = serviceRegistrations st \<and>
     set (services st') \<subseteq> set (services st)"
  by (auto simp: executeLifecycle_shutdown split: prod.splits option.splits
      dest!: callHandler_eq tryLifecycle_shutdown_fields)

text \<open>A boot loop that is not left by an exception has registered every service.\<close>

lemma loopBody_boot_ok:
  assumes "loopBody ModeBoot r st = (st', None)"
  shows "serviceRegistrations st' = serviceRegistrations st @ [r] \<and>
     fst ` set (services st') = insert (name r) (fst ` set (services st))"
proof -
  from assms have "serviceRegistrations st' = serviceRegistrations st @ [r] \<and>
     (\<exists>v. services st' = AList.update (name r) v (services st))"
    by (auto simp: loopBody_def tryService_def invoke_def
        split: prod.splits option.splits sum.splits if_splits dest!: callHandler_eq)
  then obtain v where
    "serviceRegistrations st' = serviceRegistrations st @ [r]" and
    "services st' = AList.update (name r) v (services st)"
    by blast
  then show ?thesis by (simp add: dom_update)
qed

lemma serviceLoop_boot_completes:
  "serviceLoop ModeBoot rs st = (st', None) \<Longrightarrow>
     serviceRegistrations st' = serviceRegistrations st @ rs \<and>
     fst ` set (services st') = name ` set rs \<union> fst ` set (services st)"
proof (induction rs arbitrary: st)
  case Nil
  then show ?case by simp
next
  case (Cons r rs)
  from Cons.prems obtain st1 where
    body: "loopBody ModeBoot r st = (st1, None)" and
    rest: "serviceLoop ModeBoot rs st1 = (st', None)"
    by (auto split: prod.splits option.splits)
  from loopBody_boot_ok [OF body] Cons.IH [OF rest]
  show ?case by auto
qed

lemma tryLifecycle_boot_completes:
  assumes "tryLifecycle ModeBoot rs st = (st', None)"
  shows "serviceRegistrations st' = serviceRegistrations st @ rs \<and>
     fst ` set (services st') = name ` set rs \<union> fst ` set (services st)"
proof -
  from assms obtain st1 st2 where
    started: "callHandler bootStarted NoArgs st = (st1, None)" and
    looped: "serviceLoop ModeBoot rs st1 = (st2, None)" and
    ended: "callHandler bootEnded (Result None) (st2\<lparr> booted := True \<rparr>) = (st', None)"
    by (auto simp: tryLifecycle_def split: prod.splits option.splits)
  from callHandler_eq [OF started] serviceLoop_boot_completes [OF looped]
    callHandler_eq [OF ended]
  show ?thesis by simp
qed

subsection \<open>Handlers that return\<close>

lemma quietHandlers_update [simp]:
  "quietHandlers (st\<lparr> trace := t \<rparr>) = quietHandlers st"
  "quietHandlers (st\<lparr> services := al \<rparr>) = quietHandlers st"
  "quietHandlers (st\<lparr> serviceRegistrations := rs \<rparr>) = quietHandlers st"
  "quietHandlers (st\<lparr> booted := b \<rparr>) = quietHandlers st"
  "quietHandlers (st\<lparr> aborted := b \<rparr>) = quietHandlers st"
  "quietHandlers (st\<lparr> bootProcess := x \<rparr>) = quietHandlers st"
  "quietHandlers (st\<lparr> shutdownProcess := x \<rparr>) = quietHandlers st"
  by (simp_all add: quietHandlers_def)

lemma quietHandlers_frame: "frame st' = frame st \<Longrightarrow> quietHandlers st' = quietHandlers st"
  by (simp add: quietHandlers_def frame_def)

lemma handlerTrace_update [simp]:
  "handlerTrace (st\<lparr> trace := t \<rparr>) = handlerTrace st"
  "handlerTrace (st\<lparr> services := al \<rparr>) = handlerTrace st"
  "handlerTrace (st\<lparr> serviceRegistrations := rs \<rparr>) = handlerTrace st"
  "handlerTrace (st\<lparr> booted := b \<rparr>) = handlerTrace st"
  "handlerTrace (st\<lparr> aborted := b \<rparr>) = handlerTrace st"
  by (simp_all add: handlerTrace_def fun_eq_iff)

lemma callHandler_quiet:
  "quietHandlers st \<Longrightarrow>
     callHandler event p st = (st\<lparr> trace := trace st @ handlerTrace st event p \<rparr>, None)"
  by (auto simp: callHandler_def getHandler_def handlerTrace_def quietHandlers_def
      split: option.splits)

lemma callService_trace [simp]: "callService m r (st\<lparr> trace := t \<rparr>) = callService m r st"
  by (simp add: callService_def getService_def handleOf_def)

lemma callOf_trace [simp]: "callOf m r (st\<lparr> trace := t \<rparr>) = callOf m r st"
  by (simp add: callOf_def getService_def handleOf_def)

lemma loopBody_quiet:
  assumes "quietHandlers st"
  shows "loopBody m r st = (stepped m r st, thrown m (outcome m r st))"
proof (cases "outcome m r st")
  case (Inl e)
  with assms show ?thesis
    by (simp add: loopBody_def tryService_def invoke_def outcome_def callHandler_quiet
        stepped_def)
next
  case (Inr v)
  with assms show ?thesis
    by (simp add: loopBody_def tryService_def invoke_def outcome_def callHandler_quiet
        stepped_def)
qed

lemma stepped_frame [simp]: "frame (stepped m r st) = frame st"
  by (simp add: stepped_def frame_def split: sum.splits)

lemma stepped_quiet [simp]: "quietHandlers (stepped m r st) = quietHandlers st"
  by (rule quietHandlers_frame) simp

lemma stepped_handlerTrace [simp]: "handlerTrace (stepped m r st) = handlerTrace st"
  by (simp add: stepped_def split: sum.splits)

lemma stepped_flags [simp]:
  "booted (stepped m r st) = booted st" "aborted (stepped m r st) = aborted st"
  by (simp_all add: stepped_def split: sum.splits)

lemma serviceLoop_quiet:
  assumes "quietHandlers st"
  shows "serviceLoop m (r # rs) st =
    (case thrown m (outcome m r st) of
       Some e \<Rightarrow> (stepped m r st, Some e)
     | None \<Rightarrow> serviceLoop m rs (stepped m r st))"
  using loopBody_quiet [OF assms] by (simp split: option.splits)

subsection \<open>Reading the trace\<close>

lemma outcomes_simps [simp]:
  "outcomes m [] = []"
  "outcomes m (xs @ ys) = outcomes m xs @ outcomes m ys"
  "outcomes m (c # xs) = outcomeOf m c @ outcomes m xs"
  by (simp_all add: outcomes_def)

lemma outcomes_handlerTrace [simp]: "outcomes m (handlerTrace st event p) = []"
  by (cases m) (simp_all add: handlerTrace_def split: option.splits)

lemma outcomeOf_callOf [simp]:
  "outcomeOf m' (callOf m r st) = (if m' = m then [(name r, outcome m r st)] else [])"
  by (cases m; cases m') (simp_all add: callOf_def outcome_def)

lemma shutdownCalls_simps [simp]:
  "shutdownCalls [] = []"
  "shutdownCalls (xs @ ys) = shutdownCalls xs @ shutdownCalls ys"
  "shutdownCalls (c # xs) = shutdownCallOf c @ shutdownCalls xs"
  by (simp_all add: shutdownCalls_def)

lemma shutdownCalls_handlerTrace [simp]: "shutdownCalls (handlerTrace st event p) = []"
  by (simp add: handlerTrace_def split: option.splits)

lemma shutdownCallOf_callOf [simp]:
  "shutdownCallOf (callOf m r st) =
     (if m = ModeShutdown then [(name r, getService st (name r))] else [])"
  by (simp add: callOf_def)

lemma payloadsOf_simps [simp]:
  "payloadsOf event [] = []"
  "payloadsOf event (xs @ ys) = payloadsOf event xs @ payloadsOf event ys"
  "payloadsOf event (c # xs) = payloadOf event c @ payloadsOf event xs"
  by (simp_all add: payloadsOf_def)

lemma payloadsOf_handlerTrace [simp]:
  "payloadsOf event (handlerTrace st ev p) =
     (if ev = event \<and> eventsHandlers st ev \<noteq> None then [p] else [])"
  by (auto simp: handlerTrace_def split: option.splits)

lemma payloadOf_callOf [simp]: "payloadOf event (callOf m r st) = []"
  by (simp add: callOf_def)

lemma delivered_simps [simp]:
  "delivered m [] = []"
  "delivered m (xs @ ys) = delivered m xs @ delivered m ys"
  by (simp_all add: delivered_def)

lemma results_simps [simp]:
  "results [] = []"
  "results (xs @ ys) = results xs @ results ys"
  "results (x # xs) = resultOf x @ results xs"
  by (simp_all add: results_def)

lemma failures_simps [simp]:
  "failures [] = []"
  "failures (xs @ ys) = failures xs @ failures ys"
  "failures (x # xs) = failureOf x @ failures xs"
  by (simp_all add: failures_def)

lemma modeServiceEnded_inject [simp]: "(modeServiceEnded m = modeServiceEnded m') = (m = m')"
  by (cases m; cases m') simp_all

lemma modeServiceStarted_not_Ended [simp]: "modeServiceStarted m \<noteq> modeServiceEnded m'"
  by (cases m; cases m') simp_all

lemma modeEvents_distinct [simp]:
  "modeServiceStarted m \<noteq> modeEnded m'" "modeServiceEnded m \<noteq> modeEnded m'"
  "modeServiceStarted m \<noteq> modeStarted m'" "modeServiceEnded m \<noteq> modeStarted m'"
  "modeStarted m \<noteq> modeEnded m'" "modeEnded m \<noteq> modeStarted m'"
  "modeEnded m' \<noteq> modeServiceStarted m" "modeEnded m' \<noteq> modeServiceEnded m"
  "modeStarted m' \<noteq> modeServiceStarted m" "modeStarted m' \<noteq> modeServiceEnded m"
  "modeServiceEnded m' \<noteq> modeServiceStarted m"
  "(modeEnded m = modeEnded m') = (m = m')" "(modeStarted m = modeStarted m') = (m = m')"
  by (cases m; cases m'; simp)+

lemma delivered_handlerTrace [simp]:
  "delivered m (handlerTrace st event p) =
     (if event = modeServiceEnded m \<and> eventsHandlers st event \<noteq> None then errorOf p else [])"
  by (auto simp: delivered_def)

lemma thrown_aborts: "(thrown m x = None) = (\<not> aborts m x)"
  by (cases x) simp_all

lemma thrown_Some: "thrown m x = Some e \<Longrightarrow> x = Inl e \<and> aborts m x"
  by (cases x) (simp_all split: if_splits)

text \<open>What one iteration adds to each reading of the trace.\<close>

lemma stepped_trace:
  "\<exists>tr. trace (stepped m r st) = trace st @ tr"
  by (simp add: stepped_def split: sum.splits)

lemma stepped_outcomes [simp]:
  "outcomes m' (trace (stepped m r st)) =
     outcomes m' (trace st) @ (if m' = m then [(name r, outcome m r st)] else [])"
  by (simp add: stepped_def split: sum.splits)

lemma stepped_shutdownCalls [simp]:
  "shutdownCalls (trace (stepped m r st)) =
     shutdownCalls (trace st) @
     (if m = ModeShutdown then [(name r, getService st (name r))] else [])"
  by (simp add: stepped_def split: sum.splits)

lemma stepped_payloadsOf_other:
  "event \<noteq> modeServiceStarted m \<Longrightarrow> event \<noteq> modeServiceEnded m \<Longrightarrow>
     payloadsOf event (trace (stepped m r st)) = payloadsOf event (trace st)"
  by (auto simp: stepped_def split: sum.splits)

lemma stepped_delivered [simp]:
  "delivered m' (trace (stepped m r st)) =
     delivered m' (trace st) @
     (if m' = m \<and> eventsHandlers st (modeServiceEnded m) \<noteq> None
      then failureOf (name r, outcome m r st) else [])"
  by (cases "outcome m r st") (auto simp: stepped_def delivered_def)

lemma stepped_eventsHandlers [simp]: "eventsHandlers (stepped m r st) = eventsHandlers st"
  using stepped_frame [of m r st] by (simp add: frame_def)

subsection \<open>The loop when no handler throws\<close>

lemma serviceLoop_outcomes:
  assumes "quietHandlers st" and "serviceLoop m rs st = (st', x)"
  shows "\<exists>outs.
     outcomes m (trace st') = outcomes m (trace st) @ outs \<and>
     map fst outs = map name (take (length outs) rs) \<and> length outs \<le> length rs \<and>
     (x = None \<longrightarrow> length outs = length rs \<and> (\<forall>out\<in>set outs. \<not> aborts m (snd out))) \<and>
     (\<forall>e. x = Some e \<longrightarrow>
        (\<exists>pre n. outs = pre @ [(n, Inl e)] \<and> aborts m (Inl e) \<and>
                 (\<forall>out\<in>set pre. \<not> aborts m (snd out)))) \<and>
     x = firstThrown m outs \<and>
     delivered m (trace st') =
       delivered m (trace st) @
       (if eventsHandlers st (modeServiceEnded m) = None then [] else failures outs)"
  using assms
proof (induction rs arbitrary: st)
  case Nil
  then show ?case by simp
next
  case (Cons r rs)
  let ?out = "outcome m r st"
  let ?st1 = "stepped m r st"
  show ?case
  proof (cases "thrown m ?out")
    case (Some e)
    with Cons.prems have st': "st' = ?st1" and x: "x = Some e"
      by (simp_all add: loopBody_quiet)
    from thrown_Some [OF Some] have out: "?out = Inl e" and ab: "aborts m (Inl e)"
      by auto
    have "[(name r, ?out)] = [] @ [(name r, Inl e)]"
      using out by simp
    with st' x out ab Some show ?thesis
      by (intro exI [of _ "[(name r, ?out)]"]) simp
  next
    case None
    with Cons.prems have rest: "serviceLoop m rs ?st1 = (st', x)"
      by (simp add: loopBody_quiet)
    from Cons.prems have "quietHandlers ?st1" by simp
    from Cons.IH [OF this rest] obtain outs where
      o1: "outcomes m (trace st') = outcomes m (trace ?st1) @ outs" and
      o2: "map fst outs = map name (take (length outs) rs)" and
      o3: "length outs \<le> length rs" and
      o4: "x = None \<longrightarrow> length outs = length rs \<and> (\<forall>out\<in>set outs. \<not> aborts m (snd out))" and
      o5: "\<forall>e. x = Some e \<longrightarrow>
        (\<exists>pre n. outs = pre @ [(n, Inl e)] \<and> aborts m (Inl e) \<and>
                 (\<forall>out\<in>set pre. \<not> aborts m (snd out)))" and
      o7: "x = firstThrown m outs" and
      o6: "delivered m (trace st') =
       delivered m (trace ?st1) @
       (if eventsHandlers ?st1 (modeServiceEnded m) = None then [] else failures outs)"
      by blast
    from None have quiet_out: "\<not> aborts m ?out" by (simp add: thrown_aborts)
    let ?outs = "(name r, ?out) # outs"
    have "\<exists>pre n. ?outs = pre @ [(n, Inl e)] \<and> aborts m (Inl e) \<and>
                 (\<forall>out\<in>set pre. \<not> aborts m (snd out))" if "x = Some e" for e
    proof -
      from o5 that obtain pre n where
        "outs = pre @ [(n, Inl e)]" "aborts m (Inl e)" "\<forall>out\<in>set pre. \<not> aborts m (snd out)"
        by blast
      with quiet_out show ?thesis
        by (intro exI [of _ "(name r, ?out) # pre"] exI [of _ n]) simp
    qed
    with o1 o2 o3 o4 o6 o7 quiet_out None show ?thesis
      by (intro exI [of _ ?outs]) (cases ?out; simp)
  qed
qed

lemma serviceLoop_other_mode:
  assumes "quietHandlers st" and "serviceLoop m rs st = (st', x)" and "m' \<noteq> m"
  shows "outcomes m' (trace st') = outcomes m' (trace st) \<and>
     delivered m' (trace st') = delivered m' (trace st)"
  using assms
proof (induction rs arbitrary: st)
  case Nil
  then show ?case by simp
next
  case (Cons r rs)
  show ?case
  proof (cases "thrown m (outcome m r st)")
    case (Some e)
    with Cons.prems have "st' = stepped m r st" by (simp add: loopBody_quiet)
    with Cons.prems(3) show ?thesis by simp
  next
    case None
    with Cons.prems have "serviceLoop m rs (stepped m r st) = (st', x)"
      by (simp add: loopBody_quiet)
    with Cons.IH [of "stepped m r st"] Cons.prems show ?thesis by simp
  qed
qed

lemma serviceLoop_payloadsOf:
  assumes "quietHandlers st" and "serviceLoop m rs st = (st', x)"
    and "event \<noteq> modeServiceStarted m" and "event \<noteq> modeServiceEnded m"
  shows "payloadsOf event (trace st') = payloadsOf event (trace st)"
  using assms
proof (induction rs arbitrary: st)
  case Nil
  then show ?case by simp
next
  case (Cons r rs)
  show ?case
  proof (cases "thrown m (outcome m r st)")
    case (Some e)
    with Cons.prems have "st' = stepped m r st" by (simp add: loopBody_quiet)
    with Cons.prems(3,4) show ?thesis by (simp add: stepped_payloadsOf_other)
  next
    case None
    with Cons.prems have "serviceLoop m rs (stepped m r st) = (st', x)"
      by (simp add: loopBody_quiet)
    with Cons.IH [of "stepped m r st"] Cons.prems show ?thesis
      by (simp add: stepped_payloadsOf_other)
  qed
qed

lemma serviceLoop_trace: "serviceLoop m rs st = (st', x) \<Longrightarrow> \<exists>tr. trace st' = trace st @ tr"
proof (induction rs arbitrary: st)
  case Nil
  then show ?case by simp
next
  case (Cons r rs)
  show ?case
  proof (cases "loopBody m r st")
    case (Pair st1 y)
    then have "\<exists>tr. trace st1 = trace st @ tr"
      by (auto simp: loopBody_def tryService_def invoke_def
          split: prod.splits option.splits sum.splits if_splits dest!: callHandler_eq)
    then obtain tr1 where tr1: "trace st1 = trace st @ tr1" ..
    show ?thesis
    proof (cases y)
      case None
      with Cons.prems Pair have "serviceLoop m rs st1 = (st', x)" by simp
      from Cons.IH [OF this] tr1 show ?thesis by auto
    next
      case (Some e)
      with Cons.prems Pair tr1 show ?thesis by auto
    qed
  qed
qed

subsection \<open>A run when no handler throws\<close>

lemma started_simps [simp]:
  "frame (started m st) = frame st"
  "eventsHandlers (started m st) = eventsHandlers st"
  "quietHandlers (started m st) = quietHandlers st"
  "booted (started m st) = booted st"
  "aborted (started m st) = (m = ModeShutdown \<or> aborted st)"
  "services (started m st) = services st"
  "serviceRegistrations (started m st) = serviceRegistrations st"
  "trace (started m st) = trace st @ handlerTrace st (modeStarted m) NoArgs"
  by (simp_all add: started_def frame_def)

lemma ended_simps [simp]:
  "frame (ended m x st) = frame st"
  "eventsHandlers (ended m x st) = eventsHandlers st"
  "quietHandlers (ended m x st) = quietHandlers st"
  "booted (ended m x st) = (if x = None then m = ModeBoot else booted st)"
  "aborted (ended m x st) = aborted st"
  "services (ended m x st) = services st"
  "serviceRegistrations (ended m x st) = serviceRegistrations st"
  "trace (ended m x st) = trace st @ handlerTrace st (modeEnded m) (Result x)"
  by (simp_all add: ended_def frame_def split: option.splits)

lemma tryLifecycle_quiet:
  assumes "quietHandlers st"
    and "serviceLoop m regs
           (st\<lparr> trace := trace st @ handlerTrace st (modeStarted m) NoArgs \<rparr>) = (st2, x)"
  shows "tryLifecycle m regs st =
     (case x of
        None \<Rightarrow>
          (st2\<lparr> booted := (m = ModeBoot),
                trace := trace st2 @ handlerTrace st2 (modeEnded m) (Result None) \<rparr>, None)
      | Some e \<Rightarrow> (st2, Some e))"
proof -
  from serviceLoop_frame [OF assms(2)] have "frame st2 = frame st"
    by (simp add: frame_def)
  from quietHandlers_frame [OF this] assms(1) have "quietHandlers st2"
    by simp
  then have "quietHandlers (st2\<lparr> booted := (m = ModeBoot) \<rparr>)" by simp
  then have fin: "callHandler (modeEnded m) (Result None) (st2\<lparr> booted := (m = ModeBoot) \<rparr>) =
    (st2\<lparr> booted := (m = ModeBoot),
          trace := trace st2 @ handlerTrace st2 (modeEnded m) (Result None) \<rparr>, None)"
    by (simp add: callHandler_quiet)
  have start: "callHandler (modeStarted m) NoArgs st =
    (st\<lparr> trace := trace st @ handlerTrace st (modeStarted m) NoArgs \<rparr>, None)"
    using assms(1) by (rule callHandler_quiet)
  show ?thesis
    unfolding tryLifecycle_def start
    using assms(2) fin by (cases x) simp_all
qed

lemma executeLifecycle_shutdown_quiet:
  assumes "quietHandlers st"
    and "serviceLoop ModeShutdown (rev (serviceRegistrations st)) (started ModeShutdown st) =
           (st2, x)"
  shows "executeLifecycle ModeShutdown st = (ended ModeShutdown x st2, Fulfilled)"
    and "lifecycleAborted ModeShutdown st = (x \<noteq> None)"
proof -
  from quietHandlers_frame [OF serviceLoop_frame [OF assms(2)]] assms(1)
  have q2: "quietHandlers st2"
    by simp
  have loop: "serviceLoop ModeShutdown (rev (serviceRegistrations st))
      (st\<lparr> aborted := True,
          trace := trace (st\<lparr> aborted := True \<rparr>) @
            handlerTrace (st\<lparr> aborted := True \<rparr>) (modeStarted ModeShutdown) NoArgs \<rparr>) = (st2, x)"
    using assms(2) by (simp add: started_def)
  have q: "quietHandlers (st\<lparr> aborted := True \<rparr>)" using assms(1) by simp
  note t = tryLifecycle_quiet [OF q loop]
  show "executeLifecycle ModeShutdown st = (ended ModeShutdown x st2, Fulfilled)"
    using q2 by (cases x) (simp_all add: executeLifecycle_shutdown t callHandler_quiet ended_def)
  show "lifecycleAborted ModeShutdown st = (x \<noteq> None)"
    by (cases x) (simp_all add: lifecycleAborted_def t)
qed

lemma executeLifecycle_boot_quiet:
  assumes "quietHandlers st"
    and "serviceLoop ModeBoot (serviceRegistrationsStaged st) (started ModeBoot st) = (st2, x)"
  shows "executeLifecycle ModeBoot st =
      (if x = None then (ended ModeBoot x st2, Fulfilled)
       else executeLifecycle ModeShutdown (ended ModeBoot x st2))"
    and "lifecycleAborted ModeBoot st = (x \<noteq> None)"
proof -
  from quietHandlers_frame [OF serviceLoop_frame [OF assms(2)]] assms(1)
  have q2: "quietHandlers st2"
    by simp
  have loop: "serviceLoop ModeBoot (serviceRegistrationsStaged st)
      (st\<lparr> trace := trace st @ handlerTrace st (modeStarted ModeBoot) NoArgs \<rparr>) = (st2, x)"
    using assms(2) by (simp add: started_def)
  note t = tryLifecycle_quiet [OF assms(1) loop]
  show "executeLifecycle ModeBoot st =
      (if x = None then (ended ModeBoot x st2, Fulfilled)
       else executeLifecycle ModeShutdown (ended ModeBoot x st2))"
    using q2 by (cases x) (simp_all add: executeLifecycle_boot t callHandler_quiet ended_def)
  show "lifecycleAborted ModeBoot st = (x \<noteq> None)"
    by (cases x) (simp_all add: lifecycleAborted_def t)
qed

subsection \<open>What one pass writes\<close>

text \<open>
  A pass is the call of the handler of \<^verbatim>\<open>{mode}Started\<close>, the loop and the call of the
  handler of \<^verbatim>\<open>{mode}Ended\<close>; \<open>x\<close> is the exception that left the loop, if any.
\<close>

lemma pass_outcomes:
  assumes "quietHandlers st" and "serviceLoop m rs (started m st) = (st2, x)"
  shows "\<exists>outs.
     outcomes m (trace (ended m x st2)) = outcomes m (trace st) @ outs \<and>
     map fst outs = map name (take (length outs) rs) \<and> length outs \<le> length rs \<and>
     (x = None \<longrightarrow> length outs = length rs \<and> (\<forall>out\<in>set outs. \<not> aborts m (snd out))) \<and>
     (\<forall>e. x = Some e \<longrightarrow>
        (\<exists>pre n. outs = pre @ [(n, Inl e)] \<and> aborts m (Inl e) \<and>
                 (\<forall>out\<in>set pre. \<not> aborts m (snd out)))) \<and>
     x = firstThrown m outs \<and>
     delivered m (trace (ended m x st2)) =
       delivered m (trace st) @
       (if eventsHandlers st (modeServiceEnded m) = None then [] else failures outs)"
proof -
  from assms(1) have "quietHandlers (started m st)" by simp
  from serviceLoop_outcomes [OF this assms(2)] obtain outs where
    "outcomes m (trace st2) = outcomes m (trace (started m st)) @ outs" and
    "map fst outs = map name (take (length outs) rs)" and "length outs \<le> length rs" and
    "x = None \<longrightarrow> length outs = length rs \<and> (\<forall>out\<in>set outs. \<not> aborts m (snd out))" and
    "\<forall>e. x = Some e \<longrightarrow>
        (\<exists>pre n. outs = pre @ [(n, Inl e)] \<and> aborts m (Inl e) \<and>
                 (\<forall>out\<in>set pre. \<not> aborts m (snd out)))" and
    "x = firstThrown m outs" and
    "delivered m (trace st2) =
       delivered m (trace (started m st)) @
       (if eventsHandlers (started m st) (modeServiceEnded m) = None then [] else failures outs)"
    by blast
  then show ?thesis
    by (intro exI [of _ outs]) simp
qed

lemma pass_other_mode:
  assumes "quietHandlers st" and "serviceLoop m rs (started m st) = (st2, x)" and "m' \<noteq> m"
  shows "outcomes m' (trace (ended m x st2)) = outcomes m' (trace st)"
    and "delivered m' (trace (ended m x st2)) = delivered m' (trace st)"
    and "payloadsOf (modeEnded m') (trace (ended m x st2)) = payloadsOf (modeEnded m') (trace st)"
proof -
  from assms(1) have q: "quietHandlers (started m st)" by simp
  from serviceLoop_other_mode [OF q assms(2,3)]
  show "outcomes m' (trace (ended m x st2)) = outcomes m' (trace st)"
    and "delivered m' (trace (ended m x st2)) = delivered m' (trace st)"
    using assms(3) by simp_all
  from serviceLoop_payloadsOf [OF q assms(2), of "modeEnded m'"] assms(3)
  show "payloadsOf (modeEnded m') (trace (ended m x st2)) = payloadsOf (modeEnded m') (trace st)"
    by simp
qed

lemma pass_ended:
  assumes "quietHandlers st" and "serviceLoop m rs (started m st) = (st2, x)"
  shows "payloadsOf (modeEnded m) (trace (ended m x st2)) =
     payloadsOf (modeEnded m) (trace st) @
     (if eventsHandlers st (modeEnded m) = None then [] else [Result x])"
proof -
  from assms(1) have q: "quietHandlers (started m st)" by simp
  from serviceLoop_frame [OF assms(2)] have "eventsHandlers st2 = eventsHandlers st"
    by (simp add: frame_def)
  with serviceLoop_payloadsOf [OF q assms(2), of "modeEnded m"] show ?thesis
    by simp
qed

lemma pass_trace:
  assumes "serviceLoop m rs (started m st) = (st2, x)"
  shows "\<exists>tr. trace (ended m x st2) = trace st @ tr"
  using serviceLoop_trace [OF assms] by auto

lemma since_append: "trace st' = trace st @ tr \<Longrightarrow> since st st' = tr"
  by (simp add: since_def)

lemma since_reading:
  assumes "\<exists>tr. trace st' = trace st @ tr"
  shows "outcomes m (trace st') = outcomes m (trace st) @ outcomes m (since st st')"
    and "delivered m (trace st') = delivered m (trace st) @ delivered m (since st st')"
    and "payloadsOf event (trace st') = payloadsOf event (trace st) @ payloadsOf event (since st st')"
    and "shutdownCalls (trace st') = shutdownCalls (trace st) @ shutdownCalls (since st st')"
  using assms by (auto simp: since_def)

subsection \<open>What one run writes\<close>

lemma shutdown_run_other_mode:
  assumes "quietHandlers st"
  shows "outcomes ModeBoot (trace (fst (executeLifecycle ModeShutdown st))) =
      outcomes ModeBoot (trace st)"
    and "delivered ModeBoot (trace (fst (executeLifecycle ModeShutdown st))) =
      delivered ModeBoot (trace st)"
    and "payloadsOf bootEnded (trace (fst (executeLifecycle ModeShutdown st))) =
      payloadsOf bootEnded (trace st)"
    and "\<exists>tr. trace (fst (executeLifecycle ModeShutdown st)) = trace st @ tr"
proof -
  obtain st2 x where
    loop: "serviceLoop ModeShutdown (rev (serviceRegistrations st)) (started ModeShutdown st) =
      (st2, x)"
    by (cases "serviceLoop ModeShutdown (rev (serviceRegistrations st)) (started ModeShutdown st)")
  note run = executeLifecycle_shutdown_quiet(1) [OF assms loop]
  from pass_other_mode [OF assms loop, of ModeBoot] run
  show "outcomes ModeBoot (trace (fst (executeLifecycle ModeShutdown st))) =
      outcomes ModeBoot (trace st)"
    and "delivered ModeBoot (trace (fst (executeLifecycle ModeShutdown st))) =
      delivered ModeBoot (trace st)"
    and "payloadsOf bootEnded (trace (fst (executeLifecycle ModeShutdown st))) =
      payloadsOf bootEnded (trace st)"
    by simp_all
  from pass_trace [OF loop] run
  show "\<exists>tr. trace (fst (executeLifecycle ModeShutdown st)) = trace st @ tr"
    by simp
qed

lemma run_reading:
  assumes "quietHandlers st"
  shows "\<exists>outs.
     outcomes m (trace (fst (executeLifecycle m st))) = outcomes m (trace st) @ outs \<and>
     map fst outs =
       map name (take (length outs)
         (if m = ModeShutdown then rev (serviceRegistrations st)
          else serviceRegistrationsStaged st)) \<and>
     (firstThrown m outs = None \<longrightarrow>
        length outs =
          length (if m = ModeShutdown then rev (serviceRegistrations st)
                  else serviceRegistrationsStaged st) \<and>
        (\<forall>out\<in>set outs. \<not> aborts m (snd out))) \<and>
     (\<forall>e. firstThrown m outs = Some e \<longrightarrow>
        (\<exists>pre n. outs = pre @ [(n, Inl e)] \<and> aborts m (Inl e) \<and>
                 (\<forall>out\<in>set pre. \<not> aborts m (snd out)))) \<and>
     lifecycleAborted m st = (firstThrown m outs \<noteq> None) \<and>
     delivered m (trace (fst (executeLifecycle m st))) =
       delivered m (trace st) @
       (if eventsHandlers st (modeServiceEnded m) = None then [] else failures outs) \<and>
     payloadsOf (modeEnded m) (trace (fst (executeLifecycle m st))) =
       payloadsOf (modeEnded m) (trace st) @
       (if eventsHandlers st (modeEnded m) = None then [] else [Result (firstThrown m outs)]) \<and>
     (\<exists>tr. trace (fst (executeLifecycle m st)) = trace st @ tr)"
proof -
  let ?rs = "if m = ModeShutdown then rev (serviceRegistrations st)
             else serviceRegistrationsStaged st"
  obtain st2 x where loop: "serviceLoop m ?rs (started m st) = (st2, x)"
    by (cases "serviceLoop m ?rs (started m st)")
  from pass_outcomes [OF assms loop] obtain outs where
    o1: "outcomes m (trace (ended m x st2)) = outcomes m (trace st) @ outs" and
    o2: "map fst outs = map name (take (length outs) ?rs)" and
    o4: "x = None \<longrightarrow> length outs = length ?rs \<and> (\<forall>out\<in>set outs. \<not> aborts m (snd out))" and
    o5: "\<forall>e. x = Some e \<longrightarrow>
        (\<exists>pre n. outs = pre @ [(n, Inl e)] \<and> aborts m (Inl e) \<and>
                 (\<forall>out\<in>set pre. \<not> aborts m (snd out)))" and
    o7: "x = firstThrown m outs" and
    o6: "delivered m (trace (ended m x st2)) =
       delivered m (trace st) @
       (if eventsHandlers st (modeServiceEnded m) = None then [] else failures outs)"
    by blast
  note o8 = pass_ended [OF assms loop]
  from pass_trace [OF loop] obtain tr1 where tr1: "trace (ended m x st2) = trace st @ tr1" ..
  have same:
    "outcomes m (trace (fst (executeLifecycle m st))) = outcomes m (trace (ended m x st2)) \<and>
     delivered m (trace (fst (executeLifecycle m st))) = delivered m (trace (ended m x st2)) \<and>
     payloadsOf (modeEnded m) (trace (fst (executeLifecycle m st))) =
       payloadsOf (modeEnded m) (trace (ended m x st2)) \<and>
     (\<exists>tr. trace (fst (executeLifecycle m st)) = trace (ended m x st2) @ tr) \<and>
     lifecycleAborted m st = (x \<noteq> None)"
  proof (cases m)
    case ModeShutdown
    with loop have "serviceLoop ModeShutdown (rev (serviceRegistrations st))
        (started ModeShutdown st) = (st2, x)" by simp
    from executeLifecycle_shutdown_quiet [OF assms this] ModeShutdown show ?thesis by simp
  next
    case ModeBoot
    with loop have l: "serviceLoop ModeBoot (serviceRegistrationsStaged st) (started ModeBoot st) =
        (st2, x)" by simp
    note run = executeLifecycle_boot_quiet [OF assms l]
    show ?thesis
    proof (cases x)
      case None
      with run ModeBoot show ?thesis by simp
    next
      case (Some e)
      from quietHandlers_frame [OF serviceLoop_frame [OF l]] assms
      have q: "quietHandlers (ended ModeBoot x st2)" by simp
      from shutdown_run_other_mode [OF q] run Some ModeBoot show ?thesis by simp
    qed
  qed
  then obtain tr2 where "trace (fst (executeLifecycle m st)) = trace (ended m x st2) @ tr2"
    by blast
  with tr1 have "\<exists>tr. trace (fst (executeLifecycle m st)) = trace st @ tr" by simp
  with same o1 o2 o4 o5 o6 o7 o8 show ?thesis
    by (intro exI [of _ outs]) simp
qed

subsection \<open>The loop, whatever the handlers do\<close>

lemma delete_filter: "AList.delete k al = filter (\<lambda>entry. fst entry \<noteq> k) al"
  by (induction al) auto

text \<open>
  One iteration invokes the callable at most once. If no exception leaves the body, the
  callable was invoked and its step did not fail in a way that ends the loop. In shutdown
  mode the entry of the name is deleted exactly when the step succeeded.
\<close>

lemma loopBody_general:
  assumes "loopBody m r st = (st', x)"
  shows "\<exists>outs.
     outcomes m (trace st') = outcomes m (trace st) @ outs \<and>
     length outs \<le> 1 \<and>
     (x = None \<longrightarrow> (\<forall>out\<in>set outs. \<not> aborts m (snd out))) \<and>
     (m = ModeShutdown \<longrightarrow>
        services st' = filter (\<lambda>entry. fst entry \<notin> fst ` set (results outs)) (services st))"
proof (cases "callHandler (modeServiceStarted m) (Service (name r) None) st")
  case (Pair st1 y)
  note st1 = callHandler_eq [OF Pair]
  show ?thesis
  proof (cases y)
    case (Some e)
    with assms Pair have "st' = st1" "x = Some e" by (simp_all add: loopBody_def)
    with st1 show ?thesis by simp
  next
    case None
    let ?out = "outcome m r st"
    from st1 have out1: "outcome m r st1 = ?out"
      by (simp add: outcome_def)
    obtain st2 z where tried: "tryService m r st1 = (st2, z)"
      by (cases "tryService m r st1")
    have 2: "outcomes m (trace st2) = outcomes m (trace st1) @ [(name r, ?out)] \<and>
        (\<forall>e. ?out = Inl e \<longrightarrow> z = Some e) \<and>
        (m = ModeShutdown \<longrightarrow>
           services st2 =
             (case ?out of Inl e \<Rightarrow> services st1
              | Inr v \<Rightarrow> AList.delete (name r) (services st1)))"
      using tried out1
      by (auto simp: tryService_def invoke_def outcome_def split: sum.splits if_splits
          dest!: callHandler_eq)
    have 3: "outcomes m (trace st') = outcomes m (trace st2) \<and> services st' = services st2 \<and>
        (x = None \<longrightarrow> (\<forall>e. z = Some e \<longrightarrow> \<not> aborts m (Inl e)))"
      using assms Pair None tried
      by (auto simp: loopBody_def split: option.splits prod.splits if_splits
          dest!: callHandler_eq)
    from st1 have s1: "services st1 = services st" "outcomes m (trace st1) = outcomes m (trace st)"
      by simp_all
    have ok: "\<not> aborts m ?out" if "x = None"
    proof (cases ?out)
      case (Inl e)
      with 2 have "z = Some e" by simp
      with 3 that Inl show ?thesis by simp
    next
      case (Inr v)
      then show ?thesis by simp
    qed
    have sv: "services st' = filter (\<lambda>entry. fst entry \<notin> fst ` set (results [(name r, ?out)]))
        (services st)" if "m = ModeShutdown"
      using 2 3 s1 that by (cases ?out) (simp_all add: delete_filter)
    from 2 3 s1 ok sv show ?thesis
      by (intro exI [of _ "[(name r, ?out)]"]) simp
  qed
qed

text \<open>
  The loop: a step whose failure ends the loop (any failure in boot mode, the global timeout
  in shutdown mode) is the last one whose callable is invoked; in shutdown mode the entries
  deleted from the results map are those of the names whose step succeeded.
\<close>

lemma serviceLoop_general:
  assumes "serviceLoop m rs st = (st', x)"
  shows "\<exists>outs.
     outcomes m (trace st') = outcomes m (trace st) @ outs \<and>
     (\<forall>i<length outs. aborts m (snd (outs ! i)) \<longrightarrow> Suc i = length outs) \<and>
     (m = ModeShutdown \<longrightarrow>
        services st' = filter (\<lambda>entry. fst entry \<notin> fst ` set (results outs)) (services st))"
  using assms
proof (induction rs arbitrary: st)
  case Nil
  then show ?case by simp
next
  case (Cons r rs)
  obtain st1 y where body: "loopBody m r st = (st1, y)"
    by (cases "loopBody m r st")
  from loopBody_general [OF body] obtain outs1 where
    o1: "outcomes m (trace st1) = outcomes m (trace st) @ outs1" and
    l1: "length outs1 \<le> 1" and
    a1: "y = None \<longrightarrow> (\<forall>out\<in>set outs1. \<not> aborts m (snd out))" and
    s1: "m = ModeShutdown \<longrightarrow>
        services st1 = filter (\<lambda>entry. fst entry \<notin> fst ` set (results outs1)) (services st)"
    by blast
  show ?case
  proof (cases y)
    case (Some e)
    with Cons.prems body have "st' = st1" by simp
    moreover from l1 have "\<forall>i<length outs1. aborts m (snd (outs1 ! i)) \<longrightarrow> Suc i = length outs1"
      by auto
    ultimately show ?thesis using o1 s1
      by (intro exI [of _ outs1]) simp
  next
    case None
    with Cons.prems body have rest: "serviceLoop m rs st1 = (st', x)" by simp
    from Cons.IH [OF rest] obtain outs2 where
      o2: "outcomes m (trace st') = outcomes m (trace st1) @ outs2" and
      a2: "\<forall>i<length outs2. aborts m (snd (outs2 ! i)) \<longrightarrow> Suc i = length outs2" and
      s2: "m = ModeShutdown \<longrightarrow>
        services st' = filter (\<lambda>entry. fst entry \<notin> fst ` set (results outs2)) (services st1)"
      by blast
    from None a1 have q1: "\<forall>out\<in>set outs1. \<not> aborts m (snd out)" by simp
    have last: "Suc i = length (outs1 @ outs2)"
      if i: "i < length (outs1 @ outs2)" and ab: "aborts m (snd ((outs1 @ outs2) ! i))" for i
    proof (cases "i < length outs1")
      case True
      then have "(outs1 @ outs2) ! i \<in> set outs1" by (simp add: nth_append)
      with q1 ab show ?thesis by simp
    next
      case False
      with i ab have "i - length outs1 < length outs2"
        "aborts m (snd (outs2 ! (i - length outs1)))"
        by (simp_all add: nth_append)
      with a2 have "Suc (i - length outs1) = length outs2" by simp
      with False show ?thesis by simp
    qed
    have sv: "services st' =
        filter (\<lambda>entry. fst entry \<notin> fst ` set (results (outs1 @ outs2))) (services st)"
      if "m = ModeShutdown"
      using s1 s2 that by (auto simp: image_Un intro: filter_cong)
    from o1 o2 last sv show ?thesis
      by (intro exI [of _ "outs1 @ outs2"]) simp
  qed
qed

lemma tryLifecycle_general:
  assumes "tryLifecycle m rs st = (st', x)"
  shows "\<exists>outs.
     outcomes m (trace st') = outcomes m (trace st) @ outs \<and>
     (\<forall>i<length outs. aborts m (snd (outs ! i)) \<longrightarrow> Suc i = length outs) \<and>
     (m = ModeShutdown \<longrightarrow>
        services st' = filter (\<lambda>entry. fst entry \<notin> fst ` set (results outs)) (services st)) \<and>
     (\<exists>tr. trace st' = trace st @ tr)"
proof -
  obtain st0 y where started: "callHandler (modeStarted m) NoArgs st = (st0, y)"
    by (cases "callHandler (modeStarted m) NoArgs st")
  note e0 = callHandler_eq [OF started]
  show ?thesis
  proof (cases y)
    case (Some e)
    with assms started have "st' = st0" by (simp add: tryLifecycle_def)
    with e0 show ?thesis
      by (intro exI [of _ "[]"]) simp
  next
    case None
    obtain st2 z where loop: "serviceLoop m rs st0 = (st2, z)"
      by (cases "serviceLoop m rs st0")
    from serviceLoop_general [OF loop] obtain outs where
      o: "outcomes m (trace st2) = outcomes m (trace st0) @ outs" and
      a: "\<forall>i<length outs. aborts m (snd (outs ! i)) \<longrightarrow> Suc i = length outs" and
      s: "m = ModeShutdown \<longrightarrow>
        services st2 = filter (\<lambda>entry. fst entry \<notin> fst ` set (results outs)) (services st0)"
      by blast
    from serviceLoop_trace [OF loop] e0 have tr2: "\<exists>tr. trace st2 = trace st @ tr"
      by auto
    have "outcomes m (trace st') = outcomes m (trace st2) \<and> services st' = services st2 \<and>
        (\<exists>tr. trace st' = trace st2 @ tr)"
    proof (cases z)
      case (Some e)
      with assms started None loop have "st' = st2" by (simp add: tryLifecycle_def)
      then show ?thesis by simp
    next
      case None': None
      with assms started None loop
      have "callHandler (modeEnded m) (Result None) (st2\<lparr> booted := (m = ModeBoot) \<rparr>) = (st', x)"
        by (simp add: tryLifecycle_def)
      from callHandler_eq [OF this] show ?thesis by simp
    qed
    moreover from this tr2 have "\<exists>tr. trace st' = trace st @ tr"
      by auto
    ultimately show ?thesis using o a s e0
      by (intro exI [of _ outs]) simp
  qed
qed

text \<open>A shutdown run.\<close>

lemma shutdown_run_general:
  "\<exists>outs.
     outcomes ModeShutdown (trace (fst (executeLifecycle ModeShutdown st))) =
       outcomes ModeShutdown (trace st) @ outs \<and>
     (\<forall>i<length outs. aborts ModeShutdown (snd (outs ! i)) \<longrightarrow> Suc i = length outs) \<and>
     services (fst (executeLifecycle ModeShutdown st)) =
       filter (\<lambda>entry. fst entry \<notin> fst ` set (results outs)) (services st) \<and>
     (\<exists>tr. trace (fst (executeLifecycle ModeShutdown st)) = trace st @ tr)"
proof -
  let ?st' = "fst (executeLifecycle ModeShutdown st)"
  obtain st1 x where
    t: "tryLifecycle ModeShutdown (rev (serviceRegistrations st)) (st\<lparr> aborted := True \<rparr>) = (st1, x)"
    by (cases "tryLifecycle ModeShutdown (rev (serviceRegistrations st)) (st\<lparr> aborted := True \<rparr>)")
  from tryLifecycle_general [OF t] obtain outs where
    o: "outcomes ModeShutdown (trace st1) = outcomes ModeShutdown (trace st) @ outs" and
    a: "\<forall>i<length outs. aborts ModeShutdown (snd (outs ! i)) \<longrightarrow> Suc i = length outs" and
    s: "services st1 = filter (\<lambda>entry. fst entry \<notin> fst ` set (results outs)) (services st)" and
    tr1: "\<exists>tr. trace st1 = trace st @ tr"
    by auto
  have "outcomes ModeShutdown (trace ?st') = outcomes ModeShutdown (trace st1) \<and>
      services ?st' = services st1 \<and> (\<exists>tr. trace ?st' = trace st1 @ tr)"
  proof (cases x)
    case None
    with t have "?st' = st1" by (simp add: executeLifecycle_shutdown)
    then show ?thesis by simp
  next
    case (Some e)
    obtain st2 z where ended: "callHandler shutdownEnded (Result (Some e)) st1 = (st2, z)"
      by (cases "callHandler shutdownEnded (Result (Some e)) st1")
    with t Some have "?st' = st2"
      by (cases z) (simp_all add: executeLifecycle_shutdown)
    with callHandler_eq [OF ended] show ?thesis by simp
  qed
  moreover from this tr1 have "\<exists>tr. trace ?st' = trace st @ tr"
    by auto
  ultimately show ?thesis using o a s
    by (intro exI [of _ outs]) simp
qed

text \<open>
  A boot loop that is not left by an exception: every step succeeded, and the results map
  holds, under each name, the result of the latest step under that name.
\<close>

lemma loopBody_boot_result:
  assumes "loopBody ModeBoot r st = (st', None)"
  shows "\<exists>v. outcomes ModeBoot (trace st') = outcomes ModeBoot (trace st) @ [(name r, Inr v)] \<and>
     services st' = AList.update (name r) v (services st)"
  using assms
  by (auto simp: loopBody_def tryService_def invoke_def outcome_def
      split: prod.splits option.splits sum.splits if_splits dest!: callHandler_eq)

lemma serviceLoop_boot_results:
  "serviceLoop ModeBoot rs st = (st', None) \<Longrightarrow>
     \<exists>outs. outcomes ModeBoot (trace st') = outcomes ModeBoot (trace st) @ outs \<and>
       map fst outs = map name rs \<and> failures outs = [] \<and>
       map_of (services st') = map_of (services st) ++ map_of (rev (results outs))"
proof (induction rs arbitrary: st)
  case Nil
  then show ?case by simp
next
  case (Cons r rs)
  from Cons.prems obtain st1 where
    body: "loopBody ModeBoot r st = (st1, None)" and
    rest: "serviceLoop ModeBoot rs st1 = (st', None)"
    by (auto split: prod.splits option.splits)
  from loopBody_boot_result [OF body] obtain v where
    o1: "outcomes ModeBoot (trace st1) = outcomes ModeBoot (trace st) @ [(name r, Inr v)]" and
    s1: "services st1 = AList.update (name r) v (services st)"
    by blast
  from Cons.IH [OF rest] obtain outs where
    o2: "outcomes ModeBoot (trace st') = outcomes ModeBoot (trace st1) @ outs" and
    n2: "map fst outs = map name rs" and f2: "failures outs = []" and
    s2: "map_of (services st') = map_of (services st1) ++ map_of (rev (results outs))"
    by blast
  have "map_of (services st') =
      map_of (services st) ++ map_of (rev (results ((name r, Inr v) # outs)))"
    unfolding s2 s1 by (rule ext) (simp add: update_conv' map_add_def split: option.splits)
  with o1 o2 n2 f2 show ?case
    by (intro exI [of _ "(name r, Inr v) # outs"]) simp
qed

lemma tryLifecycle_boot_results:
  assumes "tryLifecycle ModeBoot rs st = (st', None)"
  shows "\<exists>outs. outcomes ModeBoot (trace st') = outcomes ModeBoot (trace st) @ outs \<and>
       map fst outs = map name rs \<and> failures outs = [] \<and>
       map_of (services st') = map_of (services st) ++ map_of (rev (results outs))"
proof -
  from assms obtain st1 st2 where
    started: "callHandler bootStarted NoArgs st = (st1, None)" and
    looped: "serviceLoop ModeBoot rs st1 = (st2, None)" and
    ended: "callHandler bootEnded (Result None) (st2\<lparr> booted := True \<rparr>) = (st', None)"
    by (auto simp: tryLifecycle_def split: prod.splits option.splits)
  from serviceLoop_boot_results [OF looped] obtain outs where
    "outcomes ModeBoot (trace st2) = outcomes ModeBoot (trace st1) @ outs" and
    "map fst outs = map name rs" and "failures outs = []" and
    "map_of (services st2) = map_of (services st1) ++ map_of (rev (results outs))"
    by blast
  with callHandler_eq [OF started] callHandler_eq [OF ended] show ?thesis
    by (intro exI [of _ outs]) simp
qed

subsection \<open>Running the examples\<close>

text \<open>The equations that evaluate a run of the model on a given instance.\<close>

lemmas run_defs =
  ProcessLifecycle_def on_def registerService_def Boot_def Shutdown_def
  executeLifecycle_shutdown executeLifecycle_boot tryLifecycle_def loopBody_def tryService_def
  invoke_def callOf_def callService_def awaitRace_def callHandler_def getHandler_def
  handleOf_def getService_def observed_def silent_def throwing_def service_def since_def

lemma quietHandlers_observed: "quietHandlers (observed (ProcessLifecycle opts))"
  by (auto simp: quietHandlers_def observed_def on_def ProcessLifecycle_def silent_def
      split: if_splits)

lemma quietHandlers_registerService [simp]:
  "quietHandlers (registerService r st) = quietHandlers st"
  by (simp add: quietHandlers_def registerService_def)

subsection \<open>C8: the promises and the event handlers\<close>

lemma shutdown_run_fulfilled:
  assumes "quietHandlers st"
  shows "snd (executeLifecycle ModeShutdown st) = Fulfilled"
proof -
  obtain st2 x where
    "serviceLoop ModeShutdown (rev (serviceRegistrations st)) (started ModeShutdown st) = (st2, x)"
    by (cases "serviceLoop ModeShutdown (rev (serviceRegistrations st)) (started ModeShutdown st)")
  from executeLifecycle_shutdown_quiet(1) [OF assms this] show ?thesis by simp
qed

lemma run_fulfilled:
  assumes "quietHandlers st"
  shows "snd (executeLifecycle m st) = Fulfilled"
proof (cases m)
  case ModeShutdown
  with assms show ?thesis by (simp add: shutdown_run_fulfilled)
next
  case ModeBoot
  obtain st2 x where
    loop: "serviceLoop ModeBoot (serviceRegistrationsStaged st) (started ModeBoot st) = (st2, x)"
    by (cases "serviceLoop ModeBoot (serviceRegistrationsStaged st) (started ModeBoot st)")
  from quietHandlers_frame [OF serviceLoop_frame [OF loop]] assms
  have "quietHandlers (ended ModeBoot x st2)" by simp
  from shutdown_run_fulfilled [OF this] executeLifecycle_boot_quiet(1) [OF assms loop] ModeBoot
  show ?thesis by simp
qed

text \<open>
  Claim C8: whatever the event handlers and the services do, the promises returned by
  \<^verbatim>\<open>Boot()\<close> and \<^verbatim>\<open>Shutdown()\<close> resolve and never reject, and an exception thrown by an
  event handler is swallowed without any effect on the lifecycle.

  \<^verbatim>\<open>on\<close> stores the handler as it is given (line 113) and \<^verbatim>\<open>#executeLifecycle\<close> calls
  it unprotected. On \<open>throwingEnded\<close> the handler of \<^verbatim>\<open>shutdownEnded\<close> throws inside the
  outer \<^verbatim>\<open>try\<close>, is called again by the outer \<^verbatim>\<open>catch\<close> with that error, throws again,
  and the promise of \<^verbatim>\<open>Shutdown()\<close> rejects. On \<open>throwingStarted\<close> the exception of the
  handler of \<^verbatim>\<open>bootStarted\<close> ends the boot before any service is booted and triggers the
  automatic shutdown, where the same two services boot when the handler returns.
\<close>

theorem handler_exception_counterexample:
  "snd (Shutdown throwingEnded) = Rejected (Error ''h'') \<and>
   payloadsOf shutdownEnded (trace (fst (Shutdown throwingEnded))) =
     [Result None, Result (Some (Error ''h''))] \<and>
   outcomes ModeBoot (trace (fst (Boot throwingStarted))) = [] \<and>
   aborted (fst (Boot throwingStarted)) \<and> \<not> booted (fst (Boot throwingStarted)) \<and>
   map fst (outcomes ModeBoot (trace (fst (Boot twoServices)))) = [''foo'', ''bar''] \<and>
   \<not> aborted (fst (Boot twoServices)) \<and> booted (fst (Boot twoServices))"
  by (simp add: throwingEnded_def throwingStarted_def twoServices_def run_defs)

text \<open>
  Claim C8 as amended: when no registered event handler throws, whatever the services do, a
  run of the boot or of the shutdown procedure resolves its promise, and so do the promises
  of \<^verbatim>\<open>Boot()\<close> and \<^verbatim>\<open>Shutdown()\<close> on an instance where the operation has not been
  called before.
\<close>

theorem promises_resolve_when_handlers_return:
  assumes "quietHandlers st"
  shows "snd (executeLifecycle m st) = Fulfilled \<and>
    (bootProcess st = None \<longrightarrow> snd (Boot st) = Fulfilled) \<and>
    (shutdownProcess st = None \<longrightarrow> snd (Shutdown st) = Fulfilled)"
  using run_fulfilled [OF assms, of ModeBoot] run_fulfilled [OF assms, of ModeShutdown]
    run_fulfilled [OF assms, of m]
  by (auto simp: Boot_def Shutdown_def split: prod.splits)

theorem promises_resolve_witness:
  "quietHandlers failedBoot \<and> bootProcess failedBoot = None \<and>
   shutdownProcess failedBoot = None \<and>
   snd (executeLifecycle ModeBoot failedBoot) = Fulfilled \<and>
   snd (Boot failedBoot) = Fulfilled \<and> snd (Shutdown failedBoot) = Fulfilled"
proof -
  have q: "quietHandlers failedBoot"
    by (simp add: failedBoot_def quietHandlers_observed)
  have m: "bootProcess failedBoot = None" "shutdownProcess failedBoot = None"
    by (simp_all add: failedBoot_def run_defs)
  from promises_resolve_when_handlers_return [OF q, of ModeBoot] q m show ?thesis by blast
qed

subsection \<open>C2: the shutdown procedure can run twice\<close>

text \<open>
  Claim C2: for every sequence of \<^verbatim>\<open>Boot()\<close> and \<^verbatim>\<open>Shutdown()\<close> calls, the shutdown
  triggered by a boot failure included, the boot body and the shutdown body each run at most
  once; a call of \<^verbatim>\<open>Shutdown()\<close> after an automatic shutdown shares the memoised run, and
  there is exactly one \<^verbatim>\<open>shutdownStarted\<close> emission.

  The code does not do this. The outer \<^verbatim>\<open>catch\<close> of a failed boot calls
  \<^verbatim>\<open>this.#executeLifecycle("shutdown")\<close> (line 235), not \<^verbatim>\<open>this.shutdown()\<close>, so the
  field that memoises the shutdown stays unset; the next \<^verbatim>\<open>Shutdown()\<close> runs the procedure
  again. On \<open>failedBoot\<close> (\<^verbatim>\<open>foo\<close> boots to 1, the boot of \<^verbatim>\<open>bar\<close> throws),
  \<^verbatim>\<open>Boot()\<close> followed by \<^verbatim>\<open>Shutdown()\<close> calls the handler of \<^verbatim>\<open>shutdownStarted\<close>
  twice and the shutdown callable of \<^verbatim>\<open>foo\<close> twice, the second time with
  \<^verbatim>\<open>undefined\<close>.
\<close>

theorem shutdown_after_failed_boot_runs_again:
  "shutdownProcess (fst (Boot failedBoot)) = None \<and>
   payloadsOf shutdownStarted (trace (fst (Boot failedBoot))) = [NoArgs] \<and>
   shutdownCalls (trace (fst (Boot failedBoot))) = [(''foo'', Num 1)] \<and>
   payloadsOf shutdownStarted (trace (fst (Shutdown (fst (Boot failedBoot))))) = [NoArgs, NoArgs] \<and>
   shutdownCalls (trace (fst (Shutdown (fst (Boot failedBoot))))) =
     [(''foo'', Num 1), (''foo'', Undefined)]"
  by (simp add: failedBoot_def run_defs)

subsection \<open>C9: nothing is cleared when a pass ends\<close>

text \<open>
  Claim C9: after a shutdown pass the handler table, the staged list, the active list and the
  results map are all empty; after a boot pass the staged list is empty while the active
  registrations and the results of the booted services are retained.

  \<^verbatim>\<open>#executeLifecycle\<close> has no teardown. On \<open>twoServices\<close>, after \<^verbatim>\<open>Boot()\<close> and
  \<^verbatim>\<open>Shutdown()\<close> the handler of \<^verbatim>\<open>shutdownStarted\<close> is still registered and both lists
  still hold \<^verbatim>\<open>foo\<close> and \<^verbatim>\<open>bar\<close>; after \<^verbatim>\<open>Boot()\<close> alone the staged list still holds
  both.
\<close>

theorem teardown_counterexample:
  "eventsHandlers (fst (Shutdown (fst (Boot twoServices)))) shutdownStarted \<noteq> None \<and>
   map name (serviceRegistrationsStaged (fst (Shutdown (fst (Boot twoServices))))) =
     [''foo'', ''bar''] \<and>
   map name (serviceRegistrations (fst (Shutdown (fst (Boot twoServices))))) =
     [''foo'', ''bar''] \<and>
   map name (serviceRegistrationsStaged (fst (Boot twoServices))) = [''foo'', ''bar'']"
  by (simp add: twoServices_def run_defs)

text \<open>
  Claim C9 as amended: a run of either mode leaves the handler table and the staged list as
  they were. A shutdown run leaves the active list as it was, and removes from the results
  map exactly the entries of the names whose shutdown step succeeded: every other entry stays
  where it was. A boot run whose outer \<^verbatim>\<open>try\<close> is not left by an exception has appended
  every staged registration to the active list; every staged registration had a boot step,
  none of them failed, and the results map holds, under each of their names, the result of
  the latest boot step under that name, the entries of other names being as they were.
\<close>

theorem run_clears_nothing:
  "eventsHandlers (fst (executeLifecycle m st)) = eventsHandlers st \<and>
   serviceRegistrationsStaged (fst (executeLifecycle m st)) = serviceRegistrationsStaged st \<and>
   serviceRegistrations (fst (executeLifecycle ModeShutdown st)) = serviceRegistrations st \<and>
   services (fst (executeLifecycle ModeShutdown st)) =
     filter
       (\<lambda>entry. fst entry \<notin>
          fst ` set (results (outcomes ModeShutdown
                      (since st (fst (executeLifecycle ModeShutdown st))))))
       (services st) \<and>
   (\<not> lifecycleAborted ModeBoot st \<longrightarrow>
      serviceRegistrations (fst (executeLifecycle ModeBoot st)) =
        serviceRegistrations st @ serviceRegistrationsStaged st \<and>
      map fst (outcomes ModeBoot (since st (fst (executeLifecycle ModeBoot st)))) =
        map name (serviceRegistrationsStaged st) \<and>
      failures (outcomes ModeBoot (since st (fst (executeLifecycle ModeBoot st)))) = [] \<and>
      map_of (services (fst (executeLifecycle ModeBoot st))) =
        map_of (services st) ++
        map_of (rev (results (outcomes ModeBoot (since st (fst (executeLifecycle ModeBoot st)))))) \<and>
      name ` set (serviceRegistrationsStaged st) \<subseteq>
        fst ` set (services (fst (executeLifecycle ModeBoot st))))"
proof -
  have "frame (fst (executeLifecycle m st)) = frame st"
    by (rule executeLifecycle_frame [of m st _ "snd (executeLifecycle m st)"]) simp
  then have a: "eventsHandlers (fst (executeLifecycle m st)) = eventsHandlers st"
    and b: "serviceRegistrationsStaged (fst (executeLifecycle m st)) = serviceRegistrationsStaged st"
    by (simp_all add: frame_def)
  have c: "serviceRegistrations (fst (executeLifecycle ModeShutdown st)) = serviceRegistrations st"
    using executeLifecycle_shutdown_fields
      [of st "fst (executeLifecycle ModeShutdown st)" "snd (executeLifecycle ModeShutdown st)"]
    by simp
  have c': "services (fst (executeLifecycle ModeShutdown st)) =
      filter
        (\<lambda>entry. fst entry \<notin>
           fst ` set (results (outcomes ModeShutdown
                       (since st (fst (executeLifecycle ModeShutdown st))))))
        (services st)"
  proof -
    from shutdown_run_general [of st] obtain outs where
      o: "outcomes ModeShutdown (trace (fst (executeLifecycle ModeShutdown st))) =
        outcomes ModeShutdown (trace st) @ outs" and
      s: "services (fst (executeLifecycle ModeShutdown st)) =
        filter (\<lambda>entry. fst entry \<notin> fst ` set (results outs)) (services st)" and
      t: "\<exists>tr. trace (fst (executeLifecycle ModeShutdown st)) = trace st @ tr"
      by blast
    from since_reading(1) [OF t, of ModeShutdown] o
    have "outcomes ModeShutdown (since st (fst (executeLifecycle ModeShutdown st))) = outs"
      by simp
    with s show ?thesis by simp
  qed
  have d: "serviceRegistrations (fst (executeLifecycle ModeBoot st)) =
        serviceRegistrations st @ serviceRegistrationsStaged st \<and>
      map fst (outcomes ModeBoot (since st (fst (executeLifecycle ModeBoot st)))) =
        map name (serviceRegistrationsStaged st) \<and>
      failures (outcomes ModeBoot (since st (fst (executeLifecycle ModeBoot st)))) = [] \<and>
      map_of (services (fst (executeLifecycle ModeBoot st))) =
        map_of (services st) ++
        map_of (rev (results (outcomes ModeBoot (since st (fst (executeLifecycle ModeBoot st)))))) \<and>
      name ` set (serviceRegistrationsStaged st) \<subseteq>
        fst ` set (services (fst (executeLifecycle ModeBoot st)))"
    if completed: "\<not> lifecycleAborted ModeBoot st"
  proof -
    obtain st1 where t: "tryLifecycle ModeBoot (serviceRegistrationsStaged st) st = (st1, None)"
      using completed
      by (cases "tryLifecycle ModeBoot (serviceRegistrationsStaged st) st")
        (auto simp: lifecycleAborted_def)
    then have run: "executeLifecycle ModeBoot st = (st1, Fulfilled)"
      by (simp add: executeLifecycle_boot)
    from tryLifecycle_boot_results [OF t] obtain outs where
      o: "outcomes ModeBoot (trace st1) = outcomes ModeBoot (trace st) @ outs" and
      r: "map fst outs = map name (serviceRegistrationsStaged st)" "failures outs = []"
        "map_of (services st1) = map_of (services st) ++ map_of (rev (results outs))"
      by blast
    from tryLifecycle_general [OF t] have tr: "\<exists>tr. trace st1 = trace st @ tr"
      by blast
    from since_reading(1) [OF tr, of ModeBoot] o
    have "outcomes ModeBoot (since st st1) = outs"
      by simp
    with r tryLifecycle_boot_completes [OF t] show ?thesis
      unfolding run by simp
  qed
  from a b c c' d show ?thesis by blast
qed

theorem run_clears_nothing_witness:
  "\<not> lifecycleAborted ModeBoot twoServices \<and>
   serviceRegistrations (fst (executeLifecycle ModeBoot twoServices)) =
     serviceRegistrations twoServices @ serviceRegistrationsStaged twoServices \<and>
   map fst (outcomes ModeBoot (since twoServices (fst (executeLifecycle ModeBoot twoServices)))) =
     map name (serviceRegistrationsStaged twoServices) \<and>
   map_of (services (fst (executeLifecycle ModeBoot twoServices))) =
     map_of (services twoServices) ++
     map_of (rev (results (outcomes ModeBoot
       (since twoServices (fst (executeLifecycle ModeBoot twoServices)))))) \<and>
   services (fst (executeLifecycle ModeBoot twoServices)) = [(''foo'', Num 1), (''bar'', Num 2)] \<and>
   services (fst (executeLifecycle ModeShutdown (fst (Boot failingShutdown)))) =
     [(''bar'', Num 2)]"
proof -
  have completed: "\<not> lifecycleAborted ModeBoot twoServices"
    by (simp add: twoServices_def run_defs lifecycleAborted_def)
  have booted: "services (fst (executeLifecycle ModeBoot twoServices)) =
      [(''foo'', Num 1), (''bar'', Num 2)]"
    by (simp add: twoServices_def run_defs)
  have before: "services (fst (Boot failingShutdown)) = [(''foo'', Num 1), (''bar'', Num 2)]"
    and outs: "results (outcomes ModeShutdown
        (since (fst (Boot failingShutdown))
           (fst (executeLifecycle ModeShutdown (fst (Boot failingShutdown)))))) =
      [(''foo'', Undefined)]"
    by (simp_all add: failingShutdown_def run_defs)
  from run_clears_nothing [of ModeShutdown "fst (Boot failingShutdown)"] before outs
  have "services (fst (executeLifecycle ModeShutdown (fst (Boot failingShutdown)))) =
      [(''bar'', Num 2)]"
    by simp
  with run_clears_nothing [of ModeBoot twoServices] completed booted show ?thesis
    by blast
qed

subsection \<open>C7: \<open>booted\<close> after an aborted shutdown\<close>

lemma completed_run_booted:
  assumes "\<not> lifecycleAborted m st"
  shows "booted (fst (executeLifecycle m st)) = (m = ModeBoot)"
proof -
  let ?regs = "if m = ModeShutdown then rev (serviceRegistrations st)
               else serviceRegistrationsStaged st"
  let ?st0 = "if m = ModeShutdown then st\<lparr> aborted := True \<rparr> else st"
  obtain st1 where t: "tryLifecycle m ?regs ?st0 = (st1, None)"
    using assms by (cases "tryLifecycle m ?regs ?st0") (auto simp: lifecycleAborted_def)
  then have run: "executeLifecycle m st = (st1, Fulfilled)"
    by (subst executeLifecycle.simps) simp
  from t obtain st2 where
    "callHandler (modeEnded m) (Result None) (st2\<lparr> booted := (m = ModeBoot) \<rparr>) = (st1, None)"
    by (auto simp: tryLifecycle_def split: prod.splits option.splits)
  from callHandler_eq [OF this] run show ?thesis by simp
qed

lemma aborted_shutdown_booted:
  assumes "quietHandlers st" and "lifecycleAborted ModeShutdown st"
  shows "booted (fst (executeLifecycle ModeShutdown st)) = booted st"
proof -
  obtain st2 x where
    loop: "serviceLoop ModeShutdown (rev (serviceRegistrations st)) (started ModeShutdown st) =
      (st2, x)"
    by (cases "serviceLoop ModeShutdown (rev (serviceRegistrations st)) (started ModeShutdown st)")
  from executeLifecycle_shutdown_quiet [OF assms(1) loop] assms(2)
  have run: "executeLifecycle ModeShutdown st = (ended ModeShutdown x st2, Fulfilled)"
    and x: "x \<noteq> None" by simp_all
  from serviceLoop_flags [OF loop] have "booted st2 = booted st" by simp
  with run x show ?thesis by (cases x) simp_all
qed

text \<open>
  Claim C7: after a pass, \<open>booted\<close> is \<open>mode = boot\<close> exactly when the pass ran to
  completion, and \<open>booted\<close> is false after every aborted pass; in particular it is false
  after a shutdown pass that the global shutdown timeout aborted.

  The code does not do this. Only line 225, at the end of the outer \<^verbatim>\<open>try\<close>, writes
  \<^verbatim>\<open>#booted\<close>: a shutdown pass that completes sets it to false
  (\<open>completed_run_booted\<close>). The outer \<^verbatim>\<open>catch\<close> (lines 228 to 237), which ends an
  aborted pass, does not write it, so an aborted shutdown pass leaves the flag as it was
  (\<open>aborted_shutdown_booted\<close>). The current test-suite of the repository expects
  \<open>booted\<close> to be false after a shutdown that the global timeout ended. (The older
  test-suite kept in the repository expects true there.)

  On \<open>hangingShutdown\<close>, \<^verbatim>\<open>Boot()\<close> succeeds and \<open>booted\<close> is true; the shutdown pass
  is aborted by the global timeout at \<^verbatim>\<open>bar\<close> (\<^verbatim>\<open>foo\<close> is not shut down), and
  \<open>booted\<close> is still true afterwards.
\<close>

theorem booted_stays_true_after_aborted_shutdown:
  "booted (fst (Boot hangingShutdown)) \<and>
   lifecycleAborted ModeShutdown (fst (Boot hangingShutdown)) \<and>
   outcomes ModeShutdown (trace (fst (Shutdown (fst (Boot hangingShutdown))))) =
     [(''bar'', Inl (GlobalTimeoutExceededError ''Global timeout exceeded''))] \<and>
   booted (fst (Shutdown (fst (Boot hangingShutdown))))"
  by (simp add: hangingShutdown_def run_defs lifecycleAborted_def)

lemma firstThrown_None: "(firstThrown m outs = None) = (\<forall>out\<in>set outs. \<not> aborts m (snd out))"
proof (induction outs)
  case Nil
  then show ?case by simp
next
  case (Cons out outs)
  show ?case
  proof (cases "thrown m (snd out)")
    case None
    then have "\<not> aborts m (snd out)" using thrown_aborts [of m "snd out"] by simp
    with None Cons show ?thesis by simp
  next
    case (Some e)
    then have "aborts m (snd out)" using thrown_aborts [of m "snd out"] by simp
    with Some show ?thesis by auto
  qed
qed

subsection \<open>C4: which failures end a shutdown pass\<close>

text \<open>
  Claim C4: during a shutdown pass, a failed step whose cause is not the global timeout is
  recorded and the loop goes on to shut down every remaining service, while a failed step
  whose cause is the global timeout ends the loop at once, so that no remaining shutdown
  callable is invoked.

  The first half fails when a handler throws: the inner \<^verbatim>\<open>catch\<close> reports the failure to
  the handler of \<^verbatim>\<open>shutdownServiceEnded\<close> before it decides (lines 211 to 218), and an
  exception of that handler leaves the loop. On \<open>throwingServiceEnded\<close> the shutdown
  callable of \<^verbatim>\<open>bar\<close> throws a plain error, the handler throws, and the shutdown callable
  of \<^verbatim>\<open>foo\<close> is never invoked.
\<close>

theorem shutdown_continues_counterexample:
  "map name (serviceRegistrations (fst (Boot throwingServiceEnded))) = [''foo'', ''bar''] \<and>
   outcomes ModeShutdown (trace (fst (Shutdown (fst (Boot throwingServiceEnded))))) =
     [(''bar'', Inl (Error ''x''))]"
  by (simp add: throwingServiceEnded_def run_defs)

text \<open>
  Claim C4 as amended: when no event handler throws, a shutdown run invokes the shutdown
  callables of the active registrations in reverse order; a step that fails with a
  \<^verbatim>\<open>GlobalTimeoutExceededError\<close> is the last one invoked; when no step fails that way
  every active registration has its shutdown callable invoked, whatever other failures there
  are; and every failure is delivered to the handler of \<^verbatim>\<open>shutdownServiceEnded\<close>, if one
  is registered.
\<close>

theorem shutdown_stops_at_global_timeout_only:
  assumes "quietHandlers st"
  shows
    "map fst (outcomes ModeShutdown (since st (fst (executeLifecycle ModeShutdown st)))) =
       map name
         (take (length (outcomes ModeShutdown (since st (fst (executeLifecycle ModeShutdown st)))))
            (rev (serviceRegistrations st))) \<and>
     ((\<forall>out \<in> set (outcomes ModeShutdown (since st (fst (executeLifecycle ModeShutdown st)))).
          \<not> aborts ModeShutdown (snd out)) \<longrightarrow>
        length (outcomes ModeShutdown (since st (fst (executeLifecycle ModeShutdown st)))) =
          length (serviceRegistrations st)) \<and>
     (\<forall>i < length (outcomes ModeShutdown (since st (fst (executeLifecycle ModeShutdown st)))).
        aborts ModeShutdown
          (snd (outcomes ModeShutdown (since st (fst (executeLifecycle ModeShutdown st))) ! i)) \<longrightarrow>
        Suc i = length (outcomes ModeShutdown (since st (fst (executeLifecycle ModeShutdown st))))) \<and>
     (eventsHandlers st shutdownServiceEnded \<noteq> None \<longrightarrow>
        delivered ModeShutdown (since st (fst (executeLifecycle ModeShutdown st))) =
          failures (outcomes ModeShutdown (since st (fst (executeLifecycle ModeShutdown st)))))"
proof -
  let ?st' = "fst (executeLifecycle ModeShutdown st)"
  from run_reading [OF assms, of ModeShutdown] obtain outs where
    o1: "outcomes ModeShutdown (trace ?st') = outcomes ModeShutdown (trace st) @ outs" and
    o2: "map fst outs = map name (take (length outs) (rev (serviceRegistrations st)))" and
    o3: "firstThrown ModeShutdown outs = None \<longrightarrow>
        length outs = length (rev (serviceRegistrations st))" and
    o4: "\<forall>e. firstThrown ModeShutdown outs = Some e \<longrightarrow>
        (\<exists>pre n. outs = pre @ [(n, Inl e)] \<and> aborts ModeShutdown (Inl e) \<and>
                 (\<forall>out\<in>set pre. \<not> aborts ModeShutdown (snd out)))" and
    o5: "delivered ModeShutdown (trace ?st') =
       delivered ModeShutdown (trace st) @
       (if eventsHandlers st (modeServiceEnded ModeShutdown) = None then [] else failures outs)" and
    tr: "\<exists>tr. trace ?st' = trace st @ tr"
    by auto
  from since_reading(1) [OF tr, of ModeShutdown] o1
  have outs: "outcomes ModeShutdown (since st ?st') = outs" by simp
  from since_reading(2) [OF tr, of ModeShutdown] o5
  have del: "eventsHandlers st shutdownServiceEnded \<noteq> None \<longrightarrow>
      delivered ModeShutdown (since st ?st') = failures outs" by auto
  have all: "length outs = length (serviceRegistrations st)"
    if "\<forall>out\<in>set outs. \<not> aborts ModeShutdown (snd out)"
    using that o3 by (simp add: firstThrown_None)
  have last: "Suc i = length outs" if i: "i < length outs" and ab: "aborts ModeShutdown (snd (outs ! i))"
    for i
  proof -
    from i ab have "\<not> (\<forall>out\<in>set outs. \<not> aborts ModeShutdown (snd out))"
      using nth_mem by blast
    then obtain e where "firstThrown ModeShutdown outs = Some e"
      by (cases "firstThrown ModeShutdown outs") (simp_all add: firstThrown_None)
    with o4 obtain pre n where
      pre: "outs = pre @ [(n, Inl e)]" "\<forall>out\<in>set pre. \<not> aborts ModeShutdown (snd out)"
      by blast
    show ?thesis
    proof (rule ccontr)
      assume "Suc i \<noteq> length outs"
      with i pre(1) have "i < length pre" by simp
      with pre have "\<not> aborts ModeShutdown (snd (outs ! i))"
        by (simp add: nth_append)
      with ab show False by simp
    qed
  qed
  from o2 all last del show ?thesis
    unfolding outs by blast
qed

theorem shutdown_stops_at_global_timeout_only_witness:
  "quietHandlers (fst (Boot failingShutdown)) \<and>
   eventsHandlers (fst (Boot failingShutdown)) shutdownServiceEnded \<noteq> None \<and>
   outcomes ModeShutdown
     (since (fst (Boot failingShutdown))
        (fst (executeLifecycle ModeShutdown (fst (Boot failingShutdown))))) =
     [(''bar'', Inl (Error ''x'')), (''foo'', Inr Undefined)] \<and>
   delivered ModeShutdown
     (since (fst (Boot failingShutdown))
        (fst (executeLifecycle ModeShutdown (fst (Boot failingShutdown))))) =
     [(''bar'', Error ''x'')]"
proof -
  let ?st = "fst (Boot failingShutdown)"
  have "eventsHandlers ?st = eventsHandlers (observed (ProcessLifecycle None))"
    by (simp add: failingShutdown_def run_defs)
  with quietHandlers_observed [of None] have q: "quietHandlers ?st"
    by (simp add: quietHandlers_def)
  have h: "eventsHandlers ?st shutdownServiceEnded \<noteq> None"
    by (simp add: failingShutdown_def run_defs)
  have outs: "outcomes ModeShutdown (since ?st (fst (executeLifecycle ModeShutdown ?st))) =
     [(''bar'', Inl (Error ''x'')), (''foo'', Inr Undefined)]"
    by (simp add: failingShutdown_def run_defs)
  from shutdown_stops_at_global_timeout_only [OF q] h
  have "delivered ModeShutdown (since ?st (fst (executeLifecycle ModeShutdown ?st))) =
      failures (outcomes ModeShutdown (since ?st (fst (executeLifecycle ModeShutdown ?st))))"
    by blast
  with q h outs show ?thesis by simp
qed

subsection \<open>C5: \<^verbatim>\<open>{mode}Ended\<close> carries no aggregate error\<close>

text \<open>
  Claim C5: whenever a step of a boot or shutdown pass failed, \<^verbatim>\<open>{mode}Ended\<close> carries an
  aggregate error that collects all the failures of the pass, one
  \<^verbatim>\<open>ServiceLifecycleError\<close> per failed step; in particular a shutdown pass with a
  failure that is not the global timeout ends with an aggregate error that is not empty.

  The code does not do this. \<^verbatim>\<open>#executeLifecycle\<close> keeps no set of the errors of a pass:
  the inner \<^verbatim>\<open>catch\<close> (lines 210 to 219) reports a failure to the handler of
  \<^verbatim>\<open>{mode}ServiceEnded\<close> and then forgets it, unless it rethrows it; the payload of
  \<^verbatim>\<open>{mode}Ended\<close> is \<^verbatim>\<open>{}\<close> on line 227 and \<^verbatim>\<open>{ error }\<close>, with the one exception
  caught, on line 232. The test-suite of the repository expects the aggregate: after a failed
  boot it asserts that \<^verbatim>\<open>bootEnded\<close> carries an \<^verbatim>\<open>AggregateError\<close> whose \<^verbatim>\<open>errors\<close>
  list the failure, and after a shutdown in which one shutdown callable throws it asserts the
  same of \<^verbatim>\<open>shutdownEnded\<close>.

  On \<open>failingShutdown\<close> (\<^verbatim>\<open>foo\<close> and \<^verbatim>\<open>bar\<close> boot, the shutdown callable of \<^verbatim>\<open>bar\<close>
  throws) the shutdown pass has one failure, and the handler of \<^verbatim>\<open>shutdownEnded\<close> is
  called with no error at all. On \<open>failedBoot\<close> (\<^verbatim>\<open>foo\<close> boots, the boot callable of
  \<^verbatim>\<open>bar\<close> throws) the handler of \<^verbatim>\<open>bootEnded\<close> is called with the very error that
  the boot callable threw, not with a collection.
\<close>

theorem ended_carries_no_aggregate:
  "failures (outcomes ModeShutdown (trace (fst (Shutdown (fst (Boot failingShutdown)))))) =
     [(''bar'', Error ''x'')] \<and>
   payloadsOf shutdownEnded (trace (fst (Shutdown (fst (Boot failingShutdown))))) =
     [Result None] \<and>
   failures (outcomes ModeBoot (trace (fst (Boot failedBoot)))) = [(''bar'', Error ''x'')] \<and>
   payloadsOf bootEnded (trace (fst (Boot failedBoot))) = [Result (Some (Error ''x''))]"
  by (simp add: failingShutdown_def failedBoot_def run_defs)

subsection \<open>C6: \<^verbatim>\<open>{mode}ServiceEnded\<close> carries the raw error\<close>

text \<open>
  Claim C6: for every failed step the error delivered with \<^verbatim>\<open>{mode}ServiceEnded\<close> is a
  \<^verbatim>\<open>ServiceLifecycleError\<close> that carries the name of the service, the mode and the
  cause (the error raised by the callable, a \<^verbatim>\<open>ServiceTimeoutExceeded\<close> value with name,
  mode and timeout, or the global timeout), not the cause itself.

  The code does not do this. The inner \<^verbatim>\<open>catch\<close> hands the exception it caught to the
  handler as it is (lines 210 to 214); nothing wraps it, and the error that line 193 throws
  for a timeout of the service is a plain \<^verbatim>\<open>Error\<close> that names neither the service nor
  its timeout. The current test-suite of the repository expects the wrapping: after a failed
  boot of \<^verbatim>\<open>bar\<close> it asserts that the error of \<^verbatim>\<open>bootServiceEnded\<close> has the message
  \<^verbatim>\<open>Service "bar" boot error\<close> and the thrown error as its \<^verbatim>\<open>cause\<close>. (The older
  test-suite kept in the repository asserts the raw error.) This is the same omission as the
  one of C5: a failure is neither wrapped nor collected.

  On \<open>failedBoot\<close> the boot callable of \<^verbatim>\<open>bar\<close> throws \<^verbatim>\<open>Error("x")\<close>, and the
  handler of \<^verbatim>\<open>bootServiceEnded\<close> receives, for \<^verbatim>\<open>bar\<close>, that same \<^verbatim>\<open>Error("x")\<close>.
\<close>

theorem service_ended_carries_the_raw_error:
  "map (\<lambda>r. (name r, boot r (handleOf failedBoot))) (serviceRegistrationsStaged failedBoot) =
     [(''foo'', Resolves (Num 1)), (''bar'', Rejects (Error ''x''))] \<and>
   payloadsOf bootServiceEnded (trace (fst (Boot failedBoot))) =
     [Service ''foo'' None, Service ''bar'' (Some (Error ''x''))]"
  by (simp add: failedBoot_def run_defs)

subsection \<open>C3: the order of the boot callables\<close>

lemma bootArgs_simps [simp]:
  "bootArgs [] = []"
  "bootArgs (xs @ ys) = bootArgs xs @ bootArgs ys"
  "bootArgs (c # xs) = bootArgOf c @ bootArgs xs"
  by (simp_all add: bootArgs_def)

lemma bootArgs_handlerTrace [simp]: "bootArgs (handlerTrace st event p) = []"
  by (simp add: handlerTrace_def split: option.splits)

lemma bootArgOf_callOf [simp]:
  "bootArgOf (callOf m r st) = (if m = ModeBoot then [(name r, handleOf st)] else [])"
  by (cases m) (simp_all add: callOf_def)

lemma handleOf_trace [simp]: "handleOf (st\<lparr> trace := t \<rparr>) = handleOf st"
  by (simp add: handleOf_def)

text \<open>What one iteration calls, whatever the handlers do.\<close>

lemma loopBody_calls:
  assumes "loopBody m r st = (st', x)"
  shows "\<exists>outs args.
     outcomes m' (trace st') = outcomes m' (trace st) @ outs \<and>
     bootArgs (trace st') = bootArgs (trace st) @ args \<and>
     (m' \<noteq> m \<longrightarrow> outs = []) \<and> (m \<noteq> ModeBoot \<longrightarrow> args = []) \<and>
     (outs = [] \<or> map fst outs = [name r]) \<and>
     (x = None \<and> m' = m \<longrightarrow> map fst outs = [name r]) \<and>
     (\<forall>a\<in>set args. snd a = handleOf st)"
proof (cases "callHandler (modeServiceStarted m) (Service (name r) None) st")
  case (Pair st1 y)
  note st1 = callHandler_eq [OF Pair]
  show ?thesis
  proof (cases y)
    case (Some e)
    with assms Pair have "st' = st1" "x = Some e" by (simp_all add: loopBody_def)
    with st1 show ?thesis by simp
  next
    case None
    obtain st2 z where tried: "tryService m r st1 = (st2, z)"
      by (cases "tryService m r st1")
    have 2: "\<exists>tr. trace st2 = trace st1 @ [callOf m r st1] @ tr \<and>
        outcomes m' tr = [] \<and> bootArgs tr = [] \<and> eventsHandlers st2 = eventsHandlers st1"
      using tried
      by (auto simp: tryService_def invoke_def split: sum.splits if_splits dest!: callHandler_eq)
    then obtain tr2 where tr2: "trace st2 = trace st1 @ [callOf m r st1] @ tr2"
      "outcomes m' tr2 = []" "bootArgs tr2 = []" by blast
    have 3: "\<exists>tr. trace st' = trace st2 @ tr \<and> outcomes m' tr = [] \<and> bootArgs tr = []"
      using assms Pair None tried
      by (auto simp: loopBody_def split: option.splits prod.splits if_splits
          dest!: callHandler_eq)
    then obtain tr3 where tr3: "trace st' = trace st2 @ tr3"
      "outcomes m' tr3 = []" "bootArgs tr3 = []" by blast
    from st1 tr2 tr3 show ?thesis
      by (intro exI [of _ "outcomeOf m' (callOf m r st)"]
          exI [of _ "bootArgOf (callOf m r st)"]) simp
  qed
qed

lemma serviceLoop_calls:
  assumes "serviceLoop m rs st = (st', x)"
  shows "\<exists>k args.
     k \<le> length rs \<and>
     map fst (outcomes m (trace st')) = map fst (outcomes m (trace st)) @ map name (take k rs) \<and>
     (x = None \<longrightarrow> k = length rs) \<and>
     bootArgs (trace st') = bootArgs (trace st) @ args \<and>
     (\<forall>a\<in>set args. hd_booted (snd a) = booted st \<and> hd_aborted (snd a) = aborted st)"
  using assms
proof (induction rs arbitrary: st)
  case Nil
  then show ?case by simp
next
  case (Cons r rs)
  obtain st1 y where body: "loopBody m r st = (st1, y)"
    by (cases "loopBody m r st")
  from loopBody_calls [OF body, of m] obtain outs args where
    c: "outcomes m (trace st1) = outcomes m (trace st) @ outs \<and>
     bootArgs (trace st1) = bootArgs (trace st) @ args \<and>
     (m \<noteq> m \<longrightarrow> outs = []) \<and> (m \<noteq> ModeBoot \<longrightarrow> args = []) \<and>
     (outs = [] \<or> map fst outs = [name r]) \<and>
     (y = None \<and> m = m \<longrightarrow> map fst outs = [name r]) \<and>
     (\<forall>a\<in>set args. snd a = handleOf st)"
    by (elim exE) (rule that)
  then have
    o: "outcomes m (trace st1) = outcomes m (trace st) @ outs" and
    a: "bootArgs (trace st1) = bootArgs (trace st) @ args" and
    shape: "outs = [] \<or> map fst outs = [name r]" and
    ok: "y = None \<longrightarrow> map fst outs = [name r]" and
    h: "\<forall>a\<in>set args. snd a = handleOf st"
    by simp_all
  from h have flags: "\<forall>a\<in>set args. hd_booted (snd a) = booted st \<and> hd_aborted (snd a) = aborted st"
    by (simp add: handleOf_def)
  show ?case
  proof (cases y)
    case (Some e)
    with Cons.prems body have st': "st' = st1" "x = Some e" by simp_all
    from shape show ?thesis
    proof
      assume "outs = []"
      with st' o a flags show ?thesis
        by (intro exI [of _ 0] exI [of _ args]) simp
    next
      assume "map fst outs = [name r]"
      with st' o a flags show ?thesis
        by (intro exI [of _ 1] exI [of _ args]) simp
    qed
  next
    case None
    with Cons.prems body have rest: "serviceLoop m rs st1 = (st', x)" by simp
    from Cons.IH [OF rest] obtain k args' where
      k: "k \<le> length rs" and
      names: "map fst (outcomes m (trace st')) =
        map fst (outcomes m (trace st1)) @ map name (take k rs)" and
      full: "x = None \<longrightarrow> k = length rs" and
      a': "bootArgs (trace st') = bootArgs (trace st1) @ args'" and
      h': "\<forall>a\<in>set args'. hd_booted (snd a) = booted st1 \<and> hd_aborted (snd a) = aborted st1"
      by blast
    from loopBody_flags [OF body] h'
    have flags': "\<forall>a\<in>set args'. hd_booted (snd a) = booted st \<and> hd_aborted (snd a) = aborted st"
      by simp
    from None ok have "map fst outs = [name r]" by simp
    with k names full o a a' flags flags' show ?thesis
      by (intro exI [of _ "Suc k"] exI [of _ "args @ args'"]) auto
  qed
qed

lemma serviceLoop_other_calls:
  assumes "serviceLoop m rs st = (st', x)" and "m' \<noteq> m"
  shows "outcomes m' (trace st') = outcomes m' (trace st)"
  using assms
proof (induction rs arbitrary: st)
  case Nil
  then show ?case by simp
next
  case (Cons r rs)
  obtain st1 y where body: "loopBody m r st = (st1, y)"
    by (cases "loopBody m r st")
  from loopBody_calls [OF body, of m'] Cons.prems(2)
  have o: "outcomes m' (trace st1) = outcomes m' (trace st)" by auto
  show ?case
  proof (cases y)
    case (Some e)
    with Cons.prems body o show ?thesis by simp
  next
    case None
    with Cons.prems body have "serviceLoop m rs st1 = (st', x)" by simp
    from Cons.IH [OF this Cons.prems(2)] o show ?thesis by simp
  qed
qed

lemma serviceLoop_shutdown_bootArgs:
  assumes "serviceLoop ModeShutdown rs st = (st', x)"
  shows "bootArgs (trace st') = bootArgs (trace st)"
  using assms
proof (induction rs arbitrary: st)
  case Nil
  then show ?case by simp
next
  case (Cons r rs)
  obtain st1 y where body: "loopBody ModeShutdown r st = (st1, y)"
    by (cases "loopBody ModeShutdown r st")
  from loopBody_calls [OF body, of ModeShutdown]
  have o: "bootArgs (trace st1) = bootArgs (trace st)" by auto
  show ?case
  proof (cases y)
    case (Some e)
    with Cons.prems body o show ?thesis by simp
  next
    case None
    with Cons.prems body have "serviceLoop ModeShutdown rs st1 = (st', x)" by simp
    from Cons.IH [OF this] o show ?thesis by simp
  qed
qed

lemma noBootBetween_refl [simp]: "noBootBetween st st"
  by (simp add: noBootBetween_def)

lemma noBootBetween_trans:
  "noBootBetween st st1 \<Longrightarrow> noBootBetween st1 st2 \<Longrightarrow> noBootBetween st st2"
  by (auto simp: noBootBetween_def)

lemma noBootBetween_update [simp]:
  "noBootBetween (st\<lparr> aborted := a \<rparr>) st' = noBootBetween st st'"
  "noBootBetween (st\<lparr> booted := b \<rparr>) st' = noBootBetween st st'"
  by (simp_all add: noBootBetween_def)

lemma callHandler_noBoot: "callHandler event p st = (st', r) \<Longrightarrow> noBootBetween st st'"
  by (drule callHandler_eq) (simp add: noBootBetween_def)

lemma serviceLoop_shutdown_noBoot:
  assumes "serviceLoop ModeShutdown rs st = (st', x)"
  shows "noBootBetween st st'"
  using serviceLoop_other_calls [OF assms, of ModeBoot] serviceLoop_shutdown_bootArgs [OF assms]
    serviceLoop_trace [OF assms]
  by (simp add: noBootBetween_def)

lemma tryLifecycle_shutdown_noBoot:
  assumes "tryLifecycle ModeShutdown rs st = (st', x)"
  shows "noBootBetween st st'"
proof -
  obtain st1 y where started: "callHandler shutdownStarted NoArgs st = (st1, y)"
    by (cases "callHandler shutdownStarted NoArgs st")
  note n1 = callHandler_noBoot [OF started]
  show ?thesis
  proof (cases y)
    case (Some e)
    with assms started have "st' = st1" by (simp add: tryLifecycle_def)
    with n1 show ?thesis by simp
  next
    case None
    obtain st2 z where loop: "serviceLoop ModeShutdown rs st1 = (st2, z)"
      by (cases "serviceLoop ModeShutdown rs st1")
    note n2 = noBootBetween_trans [OF n1 serviceLoop_shutdown_noBoot [OF loop]]
    show ?thesis
    proof (cases z)
      case (Some e)
      with assms started None loop have "st' = st2" by (simp add: tryLifecycle_def)
      with n2 show ?thesis by simp
    next
      case None': None
      with assms started None loop
      have "callHandler shutdownEnded (Result None) (st2\<lparr> booted := False \<rparr>) = (st', x)"
        by (simp add: tryLifecycle_def)
      from callHandler_noBoot [OF this] have "noBootBetween st2 st'" by simp
      with n2 show ?thesis by (rule noBootBetween_trans)
    qed
  qed
qed

lemma shutdown_run_noBoot:
  assumes "executeLifecycle ModeShutdown st = (st', p)"
  shows "noBootBetween st st'"
proof -
  obtain st1 x where
    t: "tryLifecycle ModeShutdown (rev (serviceRegistrations st)) (st\<lparr> aborted := True \<rparr>) = (st1, x)"
    by (cases "tryLifecycle ModeShutdown (rev (serviceRegistrations st)) (st\<lparr> aborted := True \<rparr>)")
  from tryLifecycle_shutdown_noBoot [OF t] have n1: "noBootBetween st st1" by simp
  show ?thesis
  proof (cases x)
    case None
    with assms t have "st' = st1" by (simp add: executeLifecycle_shutdown)
    with n1 show ?thesis by simp
  next
    case (Some e)
    obtain st2 z where ended: "callHandler shutdownEnded (Result (Some e)) st1 = (st2, z)"
      by (cases "callHandler shutdownEnded (Result (Some e)) st1")
    with assms t Some have "st' = st2"
      by (cases z) (simp_all add: executeLifecycle_shutdown)
    with noBootBetween_trans [OF n1 callHandler_noBoot [OF ended]] show ?thesis by simp
  qed
qed

text \<open>
  A boot run, whatever the handlers do: its boot calls are those of a loop over the staged
  list, if the loop was reached at all.
\<close>

lemma boot_run_calls:
  "\<exists>k args. k \<le> length (serviceRegistrationsStaged st) \<and>
      map fst (outcomes ModeBoot (trace (fst (executeLifecycle ModeBoot st)))) =
        map fst (outcomes ModeBoot (trace st)) @ map name (take k (serviceRegistrationsStaged st)) \<and>
      bootArgs (trace (fst (executeLifecycle ModeBoot st))) = bootArgs (trace st) @ args \<and>
      (\<forall>a\<in>set args. hd_booted (snd a) = booted st \<and> hd_aborted (snd a) = aborted st) \<and>
      (\<exists>tr. trace (fst (executeLifecycle ModeBoot st)) = trace st @ tr)"
proof -
  let ?st' = "fst (executeLifecycle ModeBoot st)"
  let ?rs = "serviceRegistrationsStaged st"
  obtain st1 x where t: "tryLifecycle ModeBoot ?rs st = (st1, x)"
    by (cases "tryLifecycle ModeBoot ?rs st")
  text \<open>First the outer \<^verbatim>\<open>try\<close>.\<close>
  have inner: "\<exists>k args. k \<le> length ?rs \<and>
      map fst (outcomes ModeBoot (trace st1)) =
        map fst (outcomes ModeBoot (trace st)) @ map name (take k ?rs) \<and>
      bootArgs (trace st1) = bootArgs (trace st) @ args \<and>
      (\<forall>a\<in>set args. hd_booted (snd a) = booted st \<and> hd_aborted (snd a) = aborted st) \<and>
      (\<exists>tr. trace st1 = trace st @ tr)"
  proof -
    obtain st0 y where started: "callHandler bootStarted NoArgs st = (st0, y)"
      by (cases "callHandler bootStarted NoArgs st")
    note e0 = callHandler_eq [OF started]
    show ?thesis
    proof (cases y)
      case (Some e)
      with t started have "st1 = st0" by (simp add: tryLifecycle_def)
      with e0 show ?thesis
        by (intro exI [of _ 0] exI [of _ "[]"]) simp
    next
      case None
      obtain st2 z where loop: "serviceLoop ModeBoot ?rs st0 = (st2, z)"
        by (cases "serviceLoop ModeBoot ?rs st0")
      from serviceLoop_calls [OF loop] obtain k args where
        c: "k \<le> length ?rs \<and>
          map fst (outcomes ModeBoot (trace st2)) =
            map fst (outcomes ModeBoot (trace st0)) @ map name (take k ?rs) \<and>
          (z = None \<longrightarrow> k = length ?rs) \<and>
          bootArgs (trace st2) = bootArgs (trace st0) @ args \<and>
          (\<forall>a\<in>set args. hd_booted (snd a) = booted st0 \<and> hd_aborted (snd a) = aborted st0)"
        by (elim exE) (rule that)
      from serviceLoop_trace [OF loop] e0 have tr2: "\<exists>tr. trace st2 = trace st @ tr"
        by auto
      have "noBootBetween st2 st1"
      proof (cases z)
        case (Some e)
        with t started None loop have "st1 = st2" by (simp add: tryLifecycle_def)
        then show ?thesis by simp
      next
        case None': None
        with t started None loop
        have "callHandler bootEnded (Result None) (st2\<lparr> booted := True \<rparr>) = (st1, x)"
          by (simp add: tryLifecycle_def)
        from callHandler_noBoot [OF this] show ?thesis by simp
      qed
      with c e0 tr2 show ?thesis
        by (intro exI [of _ k] exI [of _ args]) (auto simp: noBootBetween_def)
    qed
  qed
  text \<open>Then the outer \<^verbatim>\<open>catch\<close>.\<close>
  have "noBootBetween st1 ?st'"
  proof (cases x)
    case None
    with t have "?st' = st1" by (simp add: executeLifecycle_boot)
    then show ?thesis by simp
  next
    case (Some e)
    obtain st2 z where ended: "callHandler bootEnded (Result (Some e)) st1 = (st2, z)"
      by (cases "callHandler bootEnded (Result (Some e)) st1")
    note n2 = callHandler_noBoot [OF ended]
    show ?thesis
    proof (cases z)
      case (Some e')
      with t \<open>x = Some e\<close> ended have "?st' = st2" by (simp add: executeLifecycle_boot)
      with n2 show ?thesis by simp
    next
      case None
      with t \<open>x = Some e\<close> ended
      have "executeLifecycle ModeBoot st = executeLifecycle ModeShutdown st2"
        by (simp add: executeLifecycle_boot)
      with shutdown_run_noBoot [of st2 ?st' "snd (executeLifecycle ModeShutdown st2)"]
      have "noBootBetween st2 ?st'" by simp
      with n2 show ?thesis by (rule noBootBetween_trans)
    qed
  qed
  with inner show ?thesis
    by (auto simp: noBootBetween_def)
qed

text \<open>What follows the outer \<^verbatim>\<open>try\<close> of a boot run invokes no boot callable.\<close>

lemma boot_catch_noBoot:
  assumes "tryLifecycle ModeBoot (serviceRegistrationsStaged st) st = (st1, x)"
  shows "noBootBetween st1 (fst (executeLifecycle ModeBoot st))"
proof (cases x)
  case None
  with assms have "fst (executeLifecycle ModeBoot st) = st1" by (simp add: executeLifecycle_boot)
  then show ?thesis by simp
next
  case (Some e)
  obtain st2 z where ended: "callHandler bootEnded (Result (Some e)) st1 = (st2, z)"
    by (cases "callHandler bootEnded (Result (Some e)) st1")
  note n2 = callHandler_noBoot [OF ended]
  show ?thesis
  proof (cases z)
    case (Some e')
    with assms \<open>x = Some e\<close> ended have "fst (executeLifecycle ModeBoot st) = st2"
      by (simp add: executeLifecycle_boot)
    with n2 show ?thesis by simp
  next
    case None
    with assms \<open>x = Some e\<close> ended
    have "executeLifecycle ModeBoot st = executeLifecycle ModeShutdown st2"
      by (simp add: executeLifecycle_boot)
    with shutdown_run_noBoot [of st2 "fst (executeLifecycle ModeBoot st)"
        "snd (executeLifecycle ModeShutdown st2)"]
    have "noBootBetween st2 (fst (executeLifecycle ModeBoot st))" by simp
    with n2 show ?thesis by (rule noBootBetween_trans)
  qed
qed

text \<open>A boot run, whatever the handlers do: a boot step that fails is the last one.\<close>

lemma boot_run_stops:
  "\<exists>outs.
     outcomes ModeBoot (trace (fst (executeLifecycle ModeBoot st))) =
       outcomes ModeBoot (trace st) @ outs \<and>
     (\<forall>i<length outs. aborts ModeBoot (snd (outs ! i)) \<longrightarrow> Suc i = length outs)"
proof -
  obtain st1 x where t: "tryLifecycle ModeBoot (serviceRegistrationsStaged st) st = (st1, x)"
    by (cases "tryLifecycle ModeBoot (serviceRegistrationsStaged st) st")
  from tryLifecycle_general [OF t] obtain outs where
    "outcomes ModeBoot (trace st1) = outcomes ModeBoot (trace st) @ outs" and
    "\<forall>i<length outs. aborts ModeBoot (snd (outs ! i)) \<longrightarrow> Suc i = length outs"
    by blast
  with boot_catch_noBoot [OF t] show ?thesis
    by (intro exI [of _ outs]) (simp add: noBootBetween_def)
qed

text \<open>
  Claim C3: for every list of staged registrations, a boot pass invokes the boot callable of
  each registration exactly once, in registration order, with the orchestrator instance as
  its argument; no boot callable starts before the step of an earlier registration has
  settled.

  A failed step ends the boot pass (line 216), so the registrations after it are never
  booted. On \<open>failingFirst\<close> the boot callable of \<^verbatim>\<open>bar\<close> throws, and that of \<^verbatim>\<open>foo\<close>,
  registered after it, is not invoked.
\<close>

theorem boot_each_once_counterexample:
  "map name (serviceRegistrationsStaged failingFirst) = [''bar'', ''foo''] \<and>
   map fst (outcomes ModeBoot (trace (fst (Boot failingFirst)))) = [''bar'']"
  by (simp add: failingFirst_def run_defs)

text \<open>
  Claim C3 as amended: a boot run invokes boot callables one after the other, in
  registration order, each at most once: the names of the registrations whose boot callable
  was invoked are a prefix of the staged list. The run stops at the first boot step that
  fails: a failed step is the last one whose boot callable is invoked, so the registrations
  after it are not booted. Each callable is given the instance, whose \<open>booted\<close> and
  \<open>aborted\<close> are as they were when the run began. When no event handler throws, a failed
  step is the only thing that stops the run: if some staged registration was not booted, the
  last step that was invoked failed; and if no step fails, the boot callable of every staged
  registration is invoked, exactly once.

  In boot mode \<open>aborts ModeBoot out\<close> says that the step failed (\<open>out\<close> is an \<open>Inl\<close>).
\<close>

theorem boot_calls_follow_registration_order:
  "(\<exists>k \<le> length (serviceRegistrationsStaged st).
      map fst (outcomes ModeBoot (since st (fst (executeLifecycle ModeBoot st)))) =
        map name (take k (serviceRegistrationsStaged st))) \<and>
   (\<forall>i < length (outcomes ModeBoot (since st (fst (executeLifecycle ModeBoot st)))).
      aborts ModeBoot (snd (outcomes ModeBoot (since st (fst (executeLifecycle ModeBoot st))) ! i)) \<longrightarrow>
      Suc i = length (outcomes ModeBoot (since st (fst (executeLifecycle ModeBoot st))))) \<and>
   (\<forall>a \<in> set (bootArgs (since st (fst (executeLifecycle ModeBoot st)))).
      hd_booted (snd a) = booted st \<and> hd_aborted (snd a) = aborted st) \<and>
   (quietHandlers st \<and>
    length (outcomes ModeBoot (since st (fst (executeLifecycle ModeBoot st)))) <
      length (serviceRegistrationsStaged st) \<longrightarrow>
      outcomes ModeBoot (since st (fst (executeLifecycle ModeBoot st))) \<noteq> [] \<and>
      aborts ModeBoot
        (snd (last (outcomes ModeBoot (since st (fst (executeLifecycle ModeBoot st))))))) \<and>
   (quietHandlers st \<and>
    (\<forall>out \<in> set (outcomes ModeBoot (since st (fst (executeLifecycle ModeBoot st)))).
       \<not> aborts ModeBoot (snd out)) \<longrightarrow>
      map fst (outcomes ModeBoot (since st (fst (executeLifecycle ModeBoot st)))) =
        map name (serviceRegistrationsStaged st))"
proof -
  let ?st' = "fst (executeLifecycle ModeBoot st)"
  let ?rs = "serviceRegistrationsStaged st"
  from boot_run_calls [of st] obtain k args where
    c: "k \<le> length ?rs \<and>
      map fst (outcomes ModeBoot (trace ?st')) =
        map fst (outcomes ModeBoot (trace st)) @ map name (take k ?rs) \<and>
      bootArgs (trace ?st') = bootArgs (trace st) @ args \<and>
      (\<forall>a\<in>set args. hd_booted (snd a) = booted st \<and> hd_aborted (snd a) = aborted st) \<and>
      (\<exists>tr. trace ?st' = trace st @ tr)"
    by (elim exE) (rule that)
  then obtain tr' where tr': "trace ?st' = trace st @ tr'" by blast
  then have since: "since st ?st' = tr'" by (rule since_append)
  from c tr' have 1: "map fst (outcomes ModeBoot (since st ?st')) = map name (take k ?rs)"
    unfolding since by simp
  from c tr' have 2: "bootArgs (since st ?st') = args"
    unfolding since by simp
  have 3: "map fst (outcomes ModeBoot (since st ?st')) = map name ?rs"
    if q: "quietHandlers st"
      and ok: "\<forall>out \<in> set (outcomes ModeBoot (since st ?st')). \<not> aborts ModeBoot (snd out)"
  proof -
    from run_reading [OF q, of ModeBoot] obtain outs where
      o1: "outcomes ModeBoot (trace ?st') = outcomes ModeBoot (trace st) @ outs" and
      o2: "map fst outs = map name (take (length outs) ?rs)" and
      o3: "firstThrown ModeBoot outs = None \<longrightarrow> length outs = length ?rs"
      by auto
    from o1 tr' have outs: "outcomes ModeBoot (since st ?st') = outs"
      unfolding since by simp
    with ok o3 have "length outs = length ?rs" by (simp add: firstThrown_None)
    with o2 outs show ?thesis by simp
  qed
  from boot_run_stops [of st] obtain outs' where
    "outcomes ModeBoot (trace ?st') = outcomes ModeBoot (trace st) @ outs'" and
    s: "\<forall>i<length outs'. aborts ModeBoot (snd (outs' ! i)) \<longrightarrow> Suc i = length outs'"
    by blast
  with tr' have "outcomes ModeBoot (since st ?st') = outs'"
    unfolding since by simp
  with s have 4: "\<forall>i < length (outcomes ModeBoot (since st ?st')).
      aborts ModeBoot (snd (outcomes ModeBoot (since st ?st') ! i)) \<longrightarrow>
      Suc i = length (outcomes ModeBoot (since st ?st'))"
    by simp
  have 5: "outcomes ModeBoot (since st ?st') \<noteq> [] \<and>
      aborts ModeBoot (snd (last (outcomes ModeBoot (since st ?st'))))"
    if q: "quietHandlers st"
      and short: "length (outcomes ModeBoot (since st ?st')) < length ?rs"
  proof -
    from run_reading [OF q, of ModeBoot] obtain outs where
      o1: "outcomes ModeBoot (trace ?st') = outcomes ModeBoot (trace st) @ outs" and
      o3: "firstThrown ModeBoot outs = None \<longrightarrow> length outs = length ?rs" and
      o4: "\<forall>e. firstThrown ModeBoot outs = Some e \<longrightarrow>
        (\<exists>pre n. outs = pre @ [(n, Inl e)] \<and> aborts ModeBoot (Inl e) \<and>
                 (\<forall>out\<in>set pre. \<not> aborts ModeBoot (snd out)))"
      by auto
    from o1 tr' have outs: "outcomes ModeBoot (since st ?st') = outs"
      unfolding since by simp
    from short outs o3 obtain e where "firstThrown ModeBoot outs = Some e"
      by (cases "firstThrown ModeBoot outs") auto
    with o4 obtain pre n where "outs = pre @ [(n, Inl e)]" by blast
    with outs show ?thesis by simp
  qed
  from c 1 2 3 4 5 show ?thesis by blast
qed

theorem boot_calls_follow_registration_order_witness:
  "quietHandlers twoServices \<and>
   outcomes ModeBoot (since twoServices (fst (executeLifecycle ModeBoot twoServices))) =
     [(''foo'', Inr (Num 1)), (''bar'', Inr (Num 2))] \<and>
   map fst (outcomes ModeBoot (since twoServices (fst (executeLifecycle ModeBoot twoServices)))) =
     map name (serviceRegistrationsStaged twoServices) \<and>
   map name (serviceRegistrationsStaged twoServices) = [''foo'', ''bar''] \<and>
   quietHandlers failingFirst \<and>
   length (outcomes ModeBoot (since failingFirst (fst (executeLifecycle ModeBoot failingFirst)))) <
     length (serviceRegistrationsStaged failingFirst) \<and>
   aborts ModeBoot
     (snd (last (outcomes ModeBoot
        (since failingFirst (fst (executeLifecycle ModeBoot failingFirst))))))"
proof -
  have q: "quietHandlers twoServices"
    by (simp add: twoServices_def quietHandlers_observed)
  have outs: "outcomes ModeBoot (since twoServices (fst (executeLifecycle ModeBoot twoServices))) =
      [(''foo'', Inr (Num 1)), (''bar'', Inr (Num 2))]"
    by (simp add: twoServices_def run_defs)
  then have ok: "\<forall>out \<in> set (outcomes ModeBoot
      (since twoServices (fst (executeLifecycle ModeBoot twoServices)))). \<not> aborts ModeBoot (snd out)"
    by simp
  have n: "map name (serviceRegistrationsStaged twoServices) = [''foo'', ''bar'']"
    by (simp add: twoServices_def run_defs)
  have q': "quietHandlers failingFirst"
    by (simp add: failingFirst_def quietHandlers_observed)
  have short: "length (outcomes ModeBoot
      (since failingFirst (fst (executeLifecycle ModeBoot failingFirst)))) <
      length (serviceRegistrationsStaged failingFirst)"
    by (simp add: failingFirst_def run_defs)
  from boot_calls_follow_registration_order [of twoServices]
    boot_calls_follow_registration_order [of failingFirst] q ok outs n q' short
  show ?thesis
    by blast
qed

subsection \<open>C1: the shutdown after a failed boot\<close>

lemma update_fresh: "k \<notin> fst ` set al \<Longrightarrow> AList.update k v al = al @ [(k, v)]"
  by (induction al) auto

lemma lookup_all:
  "distinct (map fst al) \<Longrightarrow>
     map (\<lambda>n. (n, case map_of al n of None \<Rightarrow> Undefined | Some v \<Rightarrow> v)) (map fst al) = al"
proof (induction al)
  case Nil
  then show ?case by simp
next
  case (Cons a al)
  obtain k v where a: "a = (k, v)" by (cases a)
  with Cons.prems have fresh: "k \<notin> fst ` set al" and d: "distinct (map fst al)" by auto
  have "map (\<lambda>n. (n, case map_of (a # al) n of None \<Rightarrow> Undefined | Some v \<Rightarrow> v)) (map fst al) =
      map (\<lambda>n. (n, case map_of al n of None \<Rightarrow> Undefined | Some v \<Rightarrow> v)) (map fst al)"
    using fresh a by (intro map_cong) auto
  with Cons.IH [OF d] a show ?case by simp
qed

lemma results_names: "set (map fst (results outs)) \<subseteq> set (map fst outs)"
proof (induction outs)
  case Nil
  then show ?case by simp
next
  case (Cons out outs)
  obtain n y where "out = (n, y)" by (cases out)
  with Cons show ?case by (cases y) auto
qed

text \<open>
  The boot loop, from an instance whose results are those of its active registrations: the
  results of the steps are appended to the results map, one entry for each registration
  that becomes active.
\<close>

lemma serviceLoop_boot_services:
  assumes "quietHandlers st" and "serviceLoop ModeBoot rs st = (st', x)"
    and "distinct (map name rs)" and "\<forall>r\<in>set rs. name r \<notin> fst ` set (services st)"
    and "map fst (services st) = map name (serviceRegistrations st)"
    and "distinct (map fst (services st))"
  shows "\<exists>outs.
     outcomes ModeBoot (trace st') = outcomes ModeBoot (trace st) @ outs \<and>
     services st' = services st @ results outs \<and>
     map fst (services st') = map name (serviceRegistrations st') \<and>
     distinct (map fst (services st')) \<and>
     shutdownCalls (trace st') = shutdownCalls (trace st) \<and>
     payloadsOf shutdownEnded (trace st') = payloadsOf shutdownEnded (trace st)"
  using assms
proof (induction rs arbitrary: st)
  case Nil
  then show ?case by simp
next
  case (Cons r rs)
  let ?st1 = "stepped ModeBoot r st"
  from Cons.prems(4) have fresh: "name r \<notin> fst ` set (services st)" by simp
  have other: "payloadsOf shutdownEnded (trace ?st1) = payloadsOf shutdownEnded (trace st)"
    by (rule stepped_payloadsOf_other) simp_all
  show ?case
  proof (cases "outcome ModeBoot r st")
    case (Inl e)
    with Cons.prems have st': "st' = ?st1" by (simp add: loopBody_quiet)
    have "services ?st1 = services st" "serviceRegistrations ?st1 = serviceRegistrations st"
      using Inl by (simp_all add: stepped_def)
    with st' Inl Cons.prems(5,6) other show ?thesis
      by (intro exI [of _ "[(name r, Inl e)]"]) simp
  next
    case (Inr v)
    with Cons.prems have rest: "serviceLoop ModeBoot rs ?st1 = (st', x)"
      by (simp add: loopBody_quiet)
    have s1: "services ?st1 = services st @ [(name r, v)]"
      and a1: "serviceRegistrations ?st1 = serviceRegistrations st @ [r]"
      using Inr fresh by (simp_all add: stepped_def update_fresh)
    from Cons.prems(3) have d: "distinct (map name rs)" and nr: "name r \<notin> name ` set rs"
      by simp_all
    from nr have nr': "\<forall>r'\<in>set rs. name r' \<noteq> name r"
      by (metis imageI)
    from Cons.prems(4) nr' s1 have f: "\<forall>r'\<in>set rs. name r' \<notin> fst ` set (services ?st1)"
      by simp
    from Cons.prems(5) s1 a1
    have m: "map fst (services ?st1) = map name (serviceRegistrations ?st1)" by simp
    from Cons.prems(6) s1 fresh have dd: "distinct (map fst (services ?st1))" by simp
    from Cons.prems(1) have q: "quietHandlers ?st1" by simp
    from Cons.IH [OF q rest d f m dd] obtain outs where
      o: "outcomes ModeBoot (trace st') = outcomes ModeBoot (trace ?st1) @ outs" and
      s: "services st' = services ?st1 @ results outs" and
      m': "map fst (services st') = map name (serviceRegistrations st')" and
      d': "distinct (map fst (services st'))" and
      sc: "shutdownCalls (trace st') = shutdownCalls (trace ?st1)" and
      pe: "payloadsOf shutdownEnded (trace st') = payloadsOf shutdownEnded (trace ?st1)"
      by (elim exE conjE) (rule that)
    from o Inr have o': "outcomes ModeBoot (trace st') =
        outcomes ModeBoot (trace st) @ (name r, Inr v) # outs"
      by simp
    from s s1 have s': "services st' = services st @ results ((name r, Inr v) # outs)"
      by simp
    from sc have sc': "shutdownCalls (trace st') = shutdownCalls (trace st)"
      by simp
    from pe other have pe': "payloadsOf shutdownEnded (trace st') = payloadsOf shutdownEnded (trace st)"
      by simp
    from o' s' m' d' sc' pe' show ?thesis
      by (intro exI [of _ "(name r, Inr v) # outs"] conjI)
  qed
qed

text \<open>
  The shutdown loop over registrations with distinct names: each shutdown callable that is
  invoked is given the value that the results map held for its name when the loop began.
\<close>

lemma stepped_shutdown_getService:
  "n \<noteq> name r \<Longrightarrow> getService (stepped ModeShutdown r st) n = getService st n"
  by (cases "outcome ModeShutdown r st") (simp_all add: stepped_def getService_def delete_conv)

lemma serviceLoop_shutdown_args:
  assumes "quietHandlers st" and "serviceLoop ModeShutdown rs st = (st', x)"
    and "distinct (map name rs)"
  shows "\<exists>outs.
     outcomes ModeShutdown (trace st') = outcomes ModeShutdown (trace st) @ outs \<and>
     shutdownCalls (trace st') =
       shutdownCalls (trace st) @
       map (\<lambda>r. (name r, getService st (name r))) (take (length outs) rs) \<and>
     outcomes ModeBoot (trace st') = outcomes ModeBoot (trace st)"
  using assms
proof (induction rs arbitrary: st)
  case Nil
  then show ?case by simp
next
  case (Cons r rs)
  let ?st1 = "stepped ModeShutdown r st"
  let ?out = "outcome ModeShutdown r st"
  show ?case
  proof (cases "thrown ModeShutdown ?out")
    case (Some e)
    with Cons.prems have "st' = ?st1" by (simp add: loopBody_quiet)
    then show ?thesis
      by (intro exI [of _ "[(name r, ?out)]"]) simp
  next
    case None
    with Cons.prems have rest: "serviceLoop ModeShutdown rs ?st1 = (st', x)"
      by (simp add: loopBody_quiet)
    from Cons.prems(3) have d: "distinct (map name rs)" and nri: "name r \<notin> name ` set rs"
      by simp_all
    from nri have nr: "\<forall>r'\<in>set rs. name r' \<noteq> name r"
      by (metis imageI)
    from Cons.prems(1) have q: "quietHandlers ?st1" by simp
    from Cons.IH [OF q rest d] obtain outs where
      c: "outcomes ModeShutdown (trace st') = outcomes ModeShutdown (trace ?st1) @ outs \<and>
       shutdownCalls (trace st') =
         shutdownCalls (trace ?st1) @
         map (\<lambda>r. (name r, getService ?st1 (name r))) (take (length outs) rs) \<and>
       outcomes ModeBoot (trace st') = outcomes ModeBoot (trace ?st1)"
      by (elim exE) (rule that)
    have "map (\<lambda>r. (name r, getService ?st1 (name r))) (take (length outs) rs) =
        map (\<lambda>r. (name r, getService st (name r))) (take (length outs) rs)"
    proof (rule map_cong [OF refl])
      fix r' assume "r' \<in> set (take (length outs) rs)"
      then have "r' \<in> set rs" by (rule in_set_takeD)
      with nr have "name r' \<noteq> name r" by simp
      then show "(name r', getService ?st1 (name r')) = (name r', getService st (name r'))"
        by (simp add: stepped_shutdown_getService)
    qed
    with c show ?thesis
      by (intro exI [of _ "(name r, ?out) # outs"]) simp
  qed
qed

lemma failures_abort_boot:
  "failures outs \<noteq> [] \<Longrightarrow> \<exists>out\<in>set outs. aborts ModeBoot (snd out)"
proof (induction outs)
  case Nil
  then show ?case by simp
next
  case (Cons out outs)
  obtain n y where "out = (n, y)" by (cases out)
  with Cons show ?case by (cases y) auto
qed

text \<open>
  A boot run that is aborted, on an instance that has nothing active, when no handler throws
  and the staged names are distinct.
\<close>

lemma failed_boot_run:
  assumes q: "quietHandlers st"
    and fresh: "serviceRegistrations st = []" "services st = []"
    and nb: "\<not> booted st"
    and d: "distinct (map name (serviceRegistrationsStaged st))"
    and ab: "lifecycleAborted ModeBoot st"
  shows "\<exists>outsB outsS.
     outcomes ModeBoot (trace (fst (executeLifecycle ModeBoot st))) =
       outcomes ModeBoot (trace st) @ outsB \<and>
     outcomes ModeShutdown (trace (fst (executeLifecycle ModeBoot st))) =
       outcomes ModeShutdown (trace st) @ outsS \<and>
     shutdownCalls (trace (fst (executeLifecycle ModeBoot st))) =
       shutdownCalls (trace st) @ take (length outsS) (rev (results outsB)) \<and>
     ((\<forall>out\<in>set outsS. \<not> aborts ModeShutdown (snd out)) \<longrightarrow>
        length (results outsB) \<le> length outsS) \<and>
     length outsS \<le> length (results outsB) \<and>
     (\<forall>i<length outsS. aborts ModeShutdown (snd (outsS ! i)) \<longrightarrow> Suc i = length outsS) \<and>
     payloadsOf shutdownEnded (trace (fst (executeLifecycle ModeBoot st))) =
       payloadsOf shutdownEnded (trace st) @
       (if eventsHandlers st shutdownEnded = None then []
        else [Result (firstThrown ModeShutdown outsS)]) \<and>
     \<not> booted (fst (executeLifecycle ModeBoot st)) \<and>
     aborted (fst (executeLifecycle ModeBoot st)) \<and>
     snd (executeLifecycle ModeBoot st) = Fulfilled \<and>
     (\<exists>tr. trace (fst (executeLifecycle ModeBoot st)) = trace st @ tr)"
proof -
  let ?rs = "serviceRegistrationsStaged st"
  text \<open>The boot pass.\<close>
  obtain st2 x where loopB: "serviceLoop ModeBoot ?rs (started ModeBoot st) = (st2, x)"
    by (cases "serviceLoop ModeBoot ?rs (started ModeBoot st)")
  from executeLifecycle_boot_quiet(2) [OF q loopB] ab have x: "x \<noteq> None" by simp
  let ?st3 = "ended ModeBoot x st2"
  from executeLifecycle_boot_quiet(1) [OF q loopB] x
  have run: "executeLifecycle ModeBoot st = executeLifecycle ModeShutdown ?st3"
    by (cases x) simp_all
  from q have qs: "quietHandlers (started ModeBoot st)" by simp
  from serviceLoop_boot_services [OF qs loopB d] fresh obtain outsB where
    oB: "outcomes ModeBoot (trace st2) = outcomes ModeBoot (trace (started ModeBoot st)) @ outsB" and
    sB: "services st2 = services (started ModeBoot st) @ results outsB" and
    mB: "map fst (services st2) = map name (serviceRegistrations st2)" and
    dB: "distinct (map fst (services st2))" and
    cB: "shutdownCalls (trace st2) = shutdownCalls (trace (started ModeBoot st))" and
    pB: "payloadsOf shutdownEnded (trace st2) =
      payloadsOf shutdownEnded (trace (started ModeBoot st))"
    by auto
  from serviceLoop_other_mode [OF qs loopB, of ModeShutdown]
  have oBS: "outcomes ModeShutdown (trace st2) = outcomes ModeShutdown (trace st)"
    by simp
  from serviceLoop_frame [OF loopB] have h2: "eventsHandlers st2 = eventsHandlers st"
    by (simp add: frame_def)
  from quietHandlers_frame [OF serviceLoop_frame [OF loopB]] q have q3: "quietHandlers ?st3"
    by simp
  from serviceLoop_flags [OF loopB] nb x have nb3: "\<not> booted ?st3"
    by (cases x) simp_all
  from pass_trace [OF loopB] obtain tr3 where tr3: "trace ?st3 = trace st @ tr3" ..
  text \<open>The shutdown pass.\<close>
  let ?active = "serviceRegistrations ?st3"
  obtain st4 y where loopS: "serviceLoop ModeShutdown (rev ?active) (started ModeShutdown ?st3) = (st4, y)"
    by (cases "serviceLoop ModeShutdown (rev ?active) (started ModeShutdown ?st3)")
  let ?st' = "ended ModeShutdown y st4"
  from executeLifecycle_shutdown_quiet(1) [OF q3 loopS] run
  have run': "executeLifecycle ModeBoot st = (?st', Fulfilled)" by simp
  from q3 have qs3: "quietHandlers (started ModeShutdown ?st3)" by simp
  from mB dB have "distinct (map name (serviceRegistrations st2))"
    by simp
  then have dA: "distinct (map name (rev ?active))"
    by (simp add: rev_map [symmetric])
  from serviceLoop_shutdown_args [OF qs3 loopS dA] obtain outsS where
    oS: "outcomes ModeShutdown (trace st4) =
      outcomes ModeShutdown (trace (started ModeShutdown ?st3)) @ outsS" and
    cS: "shutdownCalls (trace st4) =
      shutdownCalls (trace (started ModeShutdown ?st3)) @
      map (\<lambda>r. (name r, getService (started ModeShutdown ?st3) (name r)))
        (take (length outsS) (rev ?active))" and
    oSB: "outcomes ModeBoot (trace st4) = outcomes ModeBoot (trace (started ModeShutdown ?st3))"
    by auto
  from serviceLoop_outcomes [OF qs3 loopS] obtain outsS' where
    oS': "outcomes ModeShutdown (trace st4) =
      outcomes ModeShutdown (trace (started ModeShutdown ?st3)) @ outsS'" and
    bound: "length outsS' \<le> length (rev ?active)" and
    full: "y = None \<longrightarrow> length outsS' = length (rev ?active)" and
    first: "y = firstThrown ModeShutdown outsS'"
    by auto
  from oS oS' have same: "outsS' = outsS" by simp
  from serviceLoop_general [OF loopS] obtain outsS'' where
    "outcomes ModeShutdown (trace st4) =
      outcomes ModeShutdown (trace (started ModeShutdown ?st3)) @ outsS''" and
    "\<forall>i<length outsS''. aborts ModeShutdown (snd (outsS'' ! i)) \<longrightarrow> Suc i = length outsS''"
    by blast
  with oS have stop: "\<forall>i<length outsS. aborts ModeShutdown (snd (outsS ! i)) \<longrightarrow>
      Suc i = length outsS"
    by simp
  have lookup: "map (\<lambda>r. (name r, getService (started ModeShutdown ?st3) (name r))) ?active =
      results outsB"
  proof -
    have "map (\<lambda>r. (name r, getService (started ModeShutdown ?st3) (name r))) ?active =
        map (\<lambda>n. (n, case map_of (services st2) n of None \<Rightarrow> Undefined | Some v \<Rightarrow> v))
          (map name (serviceRegistrations st2))"
      by (simp add: getService_def comp_def)
    also from mB have "\<dots> =
        map (\<lambda>n. (n, case map_of (services st2) n of None \<Rightarrow> Undefined | Some v \<Rightarrow> v))
          (map fst (services st2))"
      by simp
    also from lookup_all [OF dB] have "\<dots> = services st2" .
    finally show ?thesis using sB fresh by simp
  qed
  have args: "map (\<lambda>r. (name r, getService (started ModeShutdown ?st3) (name r)))
      (take (length outsS) (rev ?active)) = take (length outsS) (rev (results outsB))"
  proof -
    have "map (\<lambda>r. (name r, getService (started ModeShutdown ?st3) (name r)))
        (take (length outsS) (rev ?active)) =
      take (length outsS)
        (rev (map (\<lambda>r. (name r, getService (started ModeShutdown ?st3) (name r))) ?active))"
      by (simp only: take_map rev_map)
    with lookup show ?thesis by simp
  qed
  from lookup have len: "length ?active = length (results outsB)"
    by (metis length_map)
  have 1: "outcomes ModeBoot (trace ?st') = outcomes ModeBoot (trace st) @ outsB"
    using oSB oB by simp
  have 2: "outcomes ModeShutdown (trace ?st') = outcomes ModeShutdown (trace st) @ outsS"
    using oS oBS by simp
  have 3: "shutdownCalls (trace ?st') =
      shutdownCalls (trace st) @ take (length outsS) (rev (results outsB))"
    using cS cB args by simp
  have 4: "length (results outsB) \<le> length outsS"
    if "\<forall>out\<in>set outsS. \<not> aborts ModeShutdown (snd out)"
  proof -
    from that first same have "y = None" by (simp add: firstThrown_None)
    with full same len show ?thesis by simp
  qed
  from serviceLoop_payloadsOf [OF qs3 loopS, of shutdownEnded]
  have "payloadsOf shutdownEnded (trace st4) = payloadsOf shutdownEnded (trace st)"
    using pB by simp
  moreover from serviceLoop_frame [OF loopS] h2
  have "eventsHandlers st4 = eventsHandlers st"
    by (simp add: frame_def)
  ultimately have 5: "payloadsOf shutdownEnded (trace ?st') =
      payloadsOf shutdownEnded (trace st) @
      (if eventsHandlers st shutdownEnded = None then []
       else [Result (firstThrown ModeShutdown outsS)])"
    using first same by simp
  from serviceLoop_flags [OF loopS] nb3 have 6: "\<not> booted ?st'" "aborted ?st'"
    by simp_all
  from pass_trace [OF loopS] obtain tr4 where "trace ?st' = trace ?st3 @ tr4" ..
  with tr3 have "trace ?st' = trace st @ (tr3 @ tr4)"
    by (simp only: append_assoc)
  then have 7: "\<exists>tr. trace ?st' = trace st @ tr" ..
  from bound same len have 8: "length outsS \<le> length (results outsB)" by simp
  from 1 2 3 4 5 6 7 8 stop show ?thesis
    unfolding run' by (intro exI [of _ outsB] exI [of _ outsS]) simp
qed

text \<open>
  Claim C1: whenever the boot step of some registered service fails, the boot operation sets
  \<open>booted\<close> to false, sets the cancellation signal and runs the shutdown procedure, which
  invokes the shutdown callable of exactly the services whose boot step had completed, in the
  exact reverse of their order of completion, each with the result of its own boot; the
  promise of \<^verbatim>\<open>Boot()\<close> resolves only after that shutdown has finished.

  The automatic shutdown is an ordinary shutdown pass, and such a pass stops at a step that
  the global shutdown timeout ends (line 216). On \<open>hangingAfterFailedBoot\<close>, \<^verbatim>\<open>foo\<close> and
  \<^verbatim>\<open>bar\<close> boot, the boot of \<^verbatim>\<open>baz\<close> throws, the shutdown of \<^verbatim>\<open>bar\<close> hits the global
  timeout, and the shutdown callable of \<^verbatim>\<open>foo\<close>, whose boot had completed, is not
  invoked.
\<close>

theorem failed_boot_shutdown_counterexample:
  "results (outcomes ModeBoot (trace (fst (Boot hangingAfterFailedBoot)))) =
     [(''foo'', Num 1), (''bar'', Num 2)] \<and>
   failures (outcomes ModeBoot (trace (fst (Boot hangingAfterFailedBoot)))) =
     [(''baz'', Error ''x'')] \<and>
   shutdownCalls (trace (fst (Boot hangingAfterFailedBoot))) = [(''bar'', Num 2)]"
  by (simp add: hangingAfterFailedBoot_def hangingShutdown_def run_defs)

lemma shutdownCalls_names: "map fst (shutdownCalls tr) = map fst (outcomes ModeShutdown tr)"
proof (induction tr)
  case Nil
  then show ?case by simp
next
  case (Cons c tr)
  then show ?case by (cases c) simp_all
qed

text \<open>
  Claim C1 as amended: take an instance that is not booted, has nothing active, on which
  \<^verbatim>\<open>Boot()\<close> has not been called, whose staged names are distinct and whose event handlers
  do not throw. If a boot step fails, then when the promise of \<^verbatim>\<open>Boot()\<close> settles it is
  resolved, \<open>booted\<close> is false, the cancellation signal is set, and the shutdown procedure
  has run to its end (\<^verbatim>\<open>shutdownEnded\<close> was emitted once). That procedure invoked the
  shutdown callables of services whose boot had returned a result, in the exact reverse of
  the order in which they booted, each with the result of its own boot. It invoked all of
  them unless a shutdown step was ended by the global shutdown timeout; such a step is the
  last shutdown callable invoked, and the services that booted before that one are not shut
  down.

  In the statement, the shutdown calls are the first so many entries of the reversed list of
  boot results, one for each shutdown step that was run; \<open>aborts ModeShutdown out\<close> says
  that the step was ended by the global shutdown timeout.
\<close>

theorem failed_boot_triggers_shutdown:
  assumes "quietHandlers st" and "bootProcess st = None"
    and "serviceRegistrations st = []" and "services st = []" and "\<not> booted st"
    and "distinct (map name (serviceRegistrationsStaged st))"
    and "failures (outcomes ModeBoot (since st (fst (Boot st)))) \<noteq> []"
  shows
    "\<not> booted (fst (Boot st)) \<and> aborted (fst (Boot st)) \<and> snd (Boot st) = Fulfilled \<and>
     shutdownCalls (since st (fst (Boot st))) =
       take (length (outcomes ModeShutdown (since st (fst (Boot st)))))
         (rev (results (outcomes ModeBoot (since st (fst (Boot st)))))) \<and>
     length (outcomes ModeShutdown (since st (fst (Boot st)))) \<le>
       length (results (outcomes ModeBoot (since st (fst (Boot st))))) \<and>
     map fst (outcomes ModeShutdown (since st (fst (Boot st)))) =
       map fst (shutdownCalls (since st (fst (Boot st)))) \<and>
     (\<forall>i < length (outcomes ModeShutdown (since st (fst (Boot st)))).
        aborts ModeShutdown (snd (outcomes ModeShutdown (since st (fst (Boot st))) ! i)) \<longrightarrow>
        shutdownCalls (since st (fst (Boot st))) =
          take (Suc i) (rev (results (outcomes ModeBoot (since st (fst (Boot st))))))) \<and>
     ((\<forall>out \<in> set (outcomes ModeShutdown (since st (fst (Boot st)))).
          \<not> aborts ModeShutdown (snd out)) \<longrightarrow>
        shutdownCalls (since st (fst (Boot st))) =
          rev (results (outcomes ModeBoot (since st (fst (Boot st)))))) \<and>
     (eventsHandlers st shutdownEnded \<noteq> None \<longrightarrow>
        length (payloadsOf shutdownEnded (since st (fst (Boot st)))) = 1)"
proof -
  let ?st' = "fst (executeLifecycle ModeBoot st)"
  from assms(2) have boot: "Boot st = (?st'\<lparr> bootProcess := Some (snd (executeLifecycle ModeBoot st)) \<rparr>,
      snd (executeLifecycle ModeBoot st))"
    by (simp add: Boot_def split: prod.splits)
  then have since: "since st (fst (Boot st)) = since st ?st'"
    by (simp add: since_def)
  text \<open>A failed step aborts the boot pass.\<close>
  from run_reading [OF assms(1), of ModeBoot] obtain outs where
    o: "outcomes ModeBoot (trace ?st') = outcomes ModeBoot (trace st) @ outs" and
    a: "lifecycleAborted ModeBoot st = (firstThrown ModeBoot outs \<noteq> None)" and
    t: "\<exists>tr. trace ?st' = trace st @ tr"
    by auto
  from since_reading(1) [OF t, of ModeBoot] o have "outcomes ModeBoot (since st ?st') = outs"
    by simp
  with assms(7) since have "failures outs \<noteq> []" by simp
  from failures_abort_boot [OF this] a have ab: "lifecycleAborted ModeBoot st"
    by (simp add: firstThrown_None)
  from failed_boot_run [OF assms(1,3,4,5,6) ab] obtain outsB outsS where
    1: "outcomes ModeBoot (trace ?st') = outcomes ModeBoot (trace st) @ outsB" and
    2: "outcomes ModeShutdown (trace ?st') = outcomes ModeShutdown (trace st) @ outsS" and
    3: "shutdownCalls (trace ?st') =
       shutdownCalls (trace st) @ take (length outsS) (rev (results outsB))" and
    4: "(\<forall>out\<in>set outsS. \<not> aborts ModeShutdown (snd out)) \<longrightarrow>
        length (results outsB) \<le> length outsS" and
    5: "payloadsOf shutdownEnded (trace ?st') =
       payloadsOf shutdownEnded (trace st) @
       (if eventsHandlers st shutdownEnded = None then []
        else [Result (firstThrown ModeShutdown outsS)])" and
    8: "length outsS \<le> length (results outsB)" and
    9: "\<forall>i<length outsS. aborts ModeShutdown (snd (outsS ! i)) \<longrightarrow> Suc i = length outsS" and
    6: "\<not> booted ?st'" "aborted ?st'" "snd (executeLifecycle ModeBoot st) = Fulfilled"
    by (elim exE conjE) (rule that)
  from since_reading(1) [OF t, of ModeBoot] 1 have b: "outcomes ModeBoot (since st ?st') = outsB"
    by simp
  from since_reading(1) [OF t, of ModeShutdown] 2
  have s: "outcomes ModeShutdown (since st ?st') = outsS"
    by simp
  from since_reading(4) [OF t] 3
  have c: "shutdownCalls (since st ?st') = take (length outsS) (rev (results outsB))"
    by simp
  from since_reading(3) [OF t, of shutdownEnded] 5
  have "eventsHandlers st shutdownEnded \<noteq> None \<longrightarrow>
      payloadsOf shutdownEnded (since st ?st') = [Result (firstThrown ModeShutdown outsS)]"
    by auto
  then have p: "eventsHandlers st shutdownEnded \<noteq> None \<longrightarrow>
      length (payloadsOf shutdownEnded (since st ?st')) = 1"
    by simp
  from c 4 have full: "shutdownCalls (since st ?st') = rev (results outsB)"
    if "\<forall>out\<in>set outsS. \<not> aborts ModeShutdown (snd out)"
    using that by simp
  from 6 boot have flags: "\<not> booted (fst (Boot st))" "aborted (fst (Boot st))"
    "snd (Boot st) = Fulfilled"
    by simp_all
  from c 9 have stop: "\<forall>i<length outsS. aborts ModeShutdown (snd (outsS ! i)) \<longrightarrow>
      shutdownCalls (since st ?st') = take (Suc i) (rev (results outsB))"
    by auto
  have names: "map fst outsS = map fst (shutdownCalls (since st ?st'))"
    unfolding s [symmetric] by (simp add: shutdownCalls_names)
  from flags c 8 names stop full p show ?thesis
    unfolding since b s by blast
qed

theorem failed_boot_triggers_shutdown_witness:
  "quietHandlers failedBoot \<and> bootProcess failedBoot = None \<and>
   serviceRegistrations failedBoot = [] \<and> services failedBoot = [] \<and> \<not> booted failedBoot \<and>
   distinct (map name (serviceRegistrationsStaged failedBoot)) \<and>
   failures (outcomes ModeBoot (since failedBoot (fst (Boot failedBoot)))) = [(''bar'', Error ''x'')] \<and>
   results (outcomes ModeBoot (since failedBoot (fst (Boot failedBoot)))) = [(''foo'', Num 1)] \<and>
   \<not> booted (fst (Boot failedBoot)) \<and> aborted (fst (Boot failedBoot)) \<and>
   snd (Boot failedBoot) = Fulfilled \<and>
   shutdownCalls (since failedBoot (fst (Boot failedBoot))) =
     rev (results (outcomes ModeBoot (since failedBoot (fst (Boot failedBoot))))) \<and>
   quietHandlers hangingAfterFailedBoot \<and>
   distinct (map name (serviceRegistrationsStaged hangingAfterFailedBoot)) \<and>
   results (outcomes ModeBoot (since hangingAfterFailedBoot (fst (Boot hangingAfterFailedBoot)))) =
     [(''foo'', Num 1), (''bar'', Num 2)] \<and>
   outcomes ModeShutdown (since hangingAfterFailedBoot (fst (Boot hangingAfterFailedBoot))) =
     [(''bar'', Inl (GlobalTimeoutExceededError ''Global timeout exceeded''))] \<and>
   shutdownCalls (since hangingAfterFailedBoot (fst (Boot hangingAfterFailedBoot))) =
     take (Suc 0)
       (rev (results (outcomes ModeBoot
          (since hangingAfterFailedBoot (fst (Boot hangingAfterFailedBoot))))))"
proof -
  have q: "quietHandlers failedBoot"
    by (simp add: failedBoot_def quietHandlers_observed)
  have fresh: "bootProcess failedBoot = None" "serviceRegistrations failedBoot = []"
    "services failedBoot = []" "\<not> booted failedBoot"
    "distinct (map name (serviceRegistrationsStaged failedBoot))"
    by (simp_all add: failedBoot_def run_defs)
  have f: "failures (outcomes ModeBoot (since failedBoot (fst (Boot failedBoot)))) =
      [(''bar'', Error ''x'')]"
    and r: "results (outcomes ModeBoot (since failedBoot (fst (Boot failedBoot)))) =
      [(''foo'', Num 1)]"
    and s: "\<forall>out \<in> set (outcomes ModeShutdown (since failedBoot (fst (Boot failedBoot)))).
      \<not> aborts ModeShutdown (snd out)"
    by (simp_all add: failedBoot_def run_defs)
  from f have "failures (outcomes ModeBoot (since failedBoot (fst (Boot failedBoot)))) \<noteq> []"
    by simp
  note one = failed_boot_triggers_shutdown [OF q fresh this]
  let ?h = hangingAfterFailedBoot
  have q': "quietHandlers ?h"
    by (simp add: hangingAfterFailedBoot_def hangingShutdown_def quietHandlers_observed)
  have fresh': "bootProcess ?h = None" "serviceRegistrations ?h = []"
    "services ?h = []" "\<not> booted ?h"
    "distinct (map name (serviceRegistrationsStaged ?h))"
    by (simp_all add: hangingAfterFailedBoot_def hangingShutdown_def run_defs)
  have f': "failures (outcomes ModeBoot (since ?h (fst (Boot ?h)))) \<noteq> []"
    and r': "results (outcomes ModeBoot (since ?h (fst (Boot ?h)))) =
      [(''foo'', Num 1), (''bar'', Num 2)]"
    and s': "outcomes ModeShutdown (since ?h (fst (Boot ?h))) =
      [(''bar'', Inl (GlobalTimeoutExceededError ''Global timeout exceeded''))]"
    by (simp_all add: hangingAfterFailedBoot_def hangingShutdown_def run_defs)
  note two = failed_boot_triggers_shutdown [OF q' fresh' f']
  from s' have "0 < length (outcomes ModeShutdown (since ?h (fst (Boot ?h))))"
    "aborts ModeShutdown (snd (outcomes ModeShutdown (since ?h (fst (Boot ?h))) ! 0))"
    by simp_all
  with two have stop: "shutdownCalls (since ?h (fst (Boot ?h))) =
      take (Suc 0) (rev (results (outcomes ModeBoot (since ?h (fst (Boot ?h))))))"
    by blast
  from one s q fresh f r q' fresh'(5) r' s' stop show ?thesis
    by blast
qed

subsection \<open>C10: two registrations under one name\<close>

lemma registerService_staged:
  "\<not> aborted st \<Longrightarrow>
     registerService r st =
       st\<lparr> serviceRegistrationsStaged :=
             serviceRegistrationsStaged st @
             [r\<lparr> timeout := (case timeout r of None \<Rightarrow> Some 5000 | Some t \<Rightarrow> Some t) \<rparr>] \<rparr>"
  by (simp add: registerService_def)

text \<open>
  Claim C10: \<^verbatim>\<open>registerService\<close> checks no name. When two registrations with the same
  name are staged and both boot, both are appended to the active list, the result of the
  later boot replaces that of the earlier one in the results map (so \<^verbatim>\<open>getService\<close> gives
  the later result), and at shutdown each of the two shutdown callables is invoked with the
  value that the map then holds for the name.

  In the statement the two registrations are registered, in this order, on an instance that
  is not aborted, has nothing staged or active, on which neither operation has been called
  and whose handlers do not throw; their boot callables return \<open>v1\<close> and \<open>v2\<close>. The
  shutdown callable of the later one is invoked first, with \<open>v2\<close>. If its step succeeds the
  entry is deleted and the earlier one is invoked with \<^verbatim>\<open>undefined\<close>; if it fails with
  another error than the global timeout the earlier one is invoked with \<open>v2\<close> too; if it
  fails with the global timeout the loop ends there.
\<close>

theorem same_name_registrations:
  assumes "quietHandlers st" and "\<not> aborted st"
    and "serviceRegistrationsStaged st = []" and "serviceRegistrations st = []"
    and "services st = []" and "bootProcess st = None" and "shutdownProcess st = None"
    and "name r2 = name r1"
    and "\<forall>h. awaitRace (boot r1 h) = Inr v1" and "\<forall>h. awaitRace (boot r2 h) = Inr v2"
  shows
    "map name (serviceRegistrationsStaged (registerService r2 (registerService r1 st))) =
       [name r1, name r1] \<and>
     map name (serviceRegistrations (fst (Boot (registerService r2 (registerService r1 st))))) =
       [name r1, name r1] \<and>
     services (fst (Boot (registerService r2 (registerService r1 st)))) = [(name r1, v2)] \<and>
     getService (fst (Boot (registerService r2 (registerService r1 st)))) (name r1) = v2 \<and>
     shutdownCalls
       (since (fst (Boot (registerService r2 (registerService r1 st))))
          (fst (Shutdown (fst (Boot (registerService r2 (registerService r1 st))))))) =
       (name r1, v2) #
       (case awaitRace (shutdown r2 v2) of
          Inr w \<Rightarrow> [(name r1, Undefined)]
        | Inl e \<Rightarrow> if instanceofGlobalTimeoutExceededError e then [] else [(name r1, v2)])"
proof -
  define n where "n = name r1"
  define r1' where
    "r1' = r1\<lparr> timeout := (case timeout r1 of None \<Rightarrow> Some 5000 | Some t \<Rightarrow> Some t) \<rparr>"
  define r2' where
    "r2' = r2\<lparr> timeout := (case timeout r2 of None \<Rightarrow> Some 5000 | Some t \<Rightarrow> Some t) \<rparr>"
  define st0 where "st0 = registerService r2 (registerService r1 st)"
  have names: "name r1' = n" "name r2' = n"
    using assms(8) by (simp_all add: r1'_def r2'_def n_def)
  have st0: "st0 = st\<lparr> serviceRegistrationsStaged := [r1', r2'] \<rparr>"
    using assms(2,3) by (simp add: st0_def registerService_staged r1'_def r2'_def)
  have q0: "quietHandlers st0"
    using assms(1) by (simp add: st0_def)
  text \<open>The boot pass.\<close>
  define s0 where "s0 = started ModeBoot st0"
  define s1 where "s1 = stepped ModeBoot r1' s0"
  define s2 where "s2 = stepped ModeBoot r2' s1"
  have o1: "outcome ModeBoot r1' s0 = Inr v1"
    using assms(9) by (simp add: outcome_def callService_def r1'_def)
  have o2: "outcome ModeBoot r2' s1 = Inr v2"
    using assms(10) by (simp add: outcome_def callService_def r2'_def)
  have f1: "services s1 = [(n, v1)]" "serviceRegistrations s1 = [r1']"
    using o1 assms(4,5) by (simp_all add: s1_def stepped_def s0_def st0 names)
  have f2: "services s2 = [(n, v2)]" "serviceRegistrations s2 = [r1', r2']"
    using o2 f1 by (simp_all add: s2_def stepped_def names)
  have qs0: "quietHandlers s0" using q0 by (simp add: s0_def)
  have qs1: "quietHandlers s1" using qs0 by (simp add: s1_def)
  have l1: "loopBody ModeBoot r1' s0 = (s1, None)"
    using loopBody_quiet [OF qs0, of ModeBoot r1'] o1 by (simp add: s1_def)
  have l2: "loopBody ModeBoot r2' s1 = (s2, None)"
    using loopBody_quiet [OF qs1, of ModeBoot r2'] o2 by (simp add: s2_def)
  have "serviceLoop ModeBoot [r1', r2'] s0 = (s2, None)"
    by (simp add: l1 l2)
  then have loopB: "serviceLoop ModeBoot (serviceRegistrationsStaged st0) (started ModeBoot st0) =
      (s2, None)"
    by (simp add: s0_def) (simp add: st0)
  from executeLifecycle_boot_quiet(1) [OF q0 loopB]
  have runB: "executeLifecycle ModeBoot st0 = (ended ModeBoot None s2, Fulfilled)"
    by simp
  define stB where "stB = fst (Boot st0)"
  have stB: "stB = (ended ModeBoot None s2)\<lparr> bootProcess := Some Fulfilled \<rparr>"
    using assms(6) runB by (simp add: stB_def Boot_def st0)
  have fB: "services stB = [(n, v2)]" "serviceRegistrations stB = [r1', r2']"
    using f2 by (simp_all add: stB)
  from serviceLoop_frame [OF loopB] assms(7) have "shutdownProcess s2 = None"
    by (simp add: frame_def st0 started_def)
  then have memo: "shutdownProcess stB = None"
    by (simp add: stB ended_def)
  from quietHandlers_frame [OF serviceLoop_frame [OF loopB]] q0 have qB: "quietHandlers stB"
    by (simp add: stB)
  text \<open>The shutdown pass.\<close>
  define t0 where "t0 = started ModeShutdown stB"
  define t1 where "t1 = stepped ModeShutdown r2' t0"
  define t2 where "t2 = stepped ModeShutdown r1' t1"
  define out2 where "out2 = awaitRace (shutdown r2 v2)"
  have g0: "getService t0 n = v2"
    using fB by (simp add: t0_def getService_def started_def)
  have u2: "outcome ModeShutdown r2' t0 = out2"
    using g0 assms(8) by (simp add: outcome_def callService_def n_def out2_def r2'_def)
  have g1: "getService t1 n = (case out2 of Inr w \<Rightarrow> Undefined | Inl e \<Rightarrow> v2)"
    using u2 fB
    by (cases out2) (simp_all add: t1_def stepped_def getService_def names t0_def started_def)
  have c1: "shutdownCalls (trace t1) = shutdownCalls (trace stB) @ [(n, v2)]"
    using g0 by (simp add: t1_def names) (simp add: t0_def)
  have c2: "shutdownCalls (trace t2) =
      shutdownCalls (trace stB) @ [(n, v2), (n, case out2 of Inr w \<Rightarrow> Undefined | Inl e \<Rightarrow> v2)]"
    using c1 g1 by (simp add: t2_def names)
  have q0': "quietHandlers t0" using qB by (simp add: t0_def)
  have q1': "quietHandlers t1" using q0' by (simp add: t1_def)
  have calls: "shutdownCalls (trace (fst (executeLifecycle ModeShutdown stB))) =
      shutdownCalls (trace stB) @
      (n, v2) #
      (case out2 of
         Inr w \<Rightarrow> [(n, Undefined)]
       | Inl e \<Rightarrow> if instanceofGlobalTimeoutExceededError e then [] else [(n, v2)])"
  proof (cases "thrown ModeShutdown out2")
    case (Some e)
    have "loopBody ModeShutdown r2' t0 = (t1, Some e)"
      using loopBody_quiet [OF q0', of ModeShutdown r2'] u2 Some by (simp add: t1_def)
    then have "serviceLoop ModeShutdown [r2', r1'] t0 = (t1, Some e)"
      by simp
    then have loop: "serviceLoop ModeShutdown (rev (serviceRegistrations stB))
        (started ModeShutdown stB) = (t1, Some e)"
      by (simp add: fB t0_def)
    from thrown_Some [OF Some] have "out2 = Inl e" "instanceofGlobalTimeoutExceededError e"
      by auto
    with executeLifecycle_shutdown_quiet(1) [OF qB loop] c1 show ?thesis
      by (simp add: ended_def)
  next
    case None
    obtain y where y: "thrown ModeShutdown (outcome ModeShutdown r1' t1) = y" by simp
    have k1: "loopBody ModeShutdown r2' t0 = (t1, None)"
      using loopBody_quiet [OF q0', of ModeShutdown r2'] u2 None by (simp add: t1_def)
    have k2: "loopBody ModeShutdown r1' t1 = (t2, y)"
      using loopBody_quiet [OF q1', of ModeShutdown r1'] y by (simp add: t2_def)
    have "serviceLoop ModeShutdown [r2', r1'] t0 = (t2, y)"
      by (cases y) (simp_all add: k1 k2)
    then have loop: "serviceLoop ModeShutdown (rev (serviceRegistrations stB))
        (started ModeShutdown stB) = (t2, y)"
      by (simp add: fB t0_def)
    from None have "case out2 of Inr w \<Rightarrow> True | Inl e \<Rightarrow> \<not> instanceofGlobalTimeoutExceededError e"
      by (cases out2) (simp_all split: if_splits)
    with executeLifecycle_shutdown_quiet(1) [OF qB loop] c2 show ?thesis
      by (cases out2; cases y) (simp_all add: ended_def)
  qed
  have "\<exists>tr. trace (fst (executeLifecycle ModeShutdown stB)) = trace stB @ tr"
    using shutdown_run_other_mode(4) [OF qB] .
  from since_reading(4) [OF this] calls
  have "shutdownCalls (since stB (fst (executeLifecycle ModeShutdown stB))) =
      (n, v2) #
      (case out2 of
         Inr w \<Rightarrow> [(n, Undefined)]
       | Inl e \<Rightarrow> if instanceofGlobalTimeoutExceededError e then [] else [(n, v2)])"
    by simp
  moreover from memo have "since stB (fst (Shutdown stB)) =
      since stB (fst (executeLifecycle ModeShutdown stB))"
    by (simp add: Shutdown_def since_def split: prod.splits)
  ultimately have 5: "shutdownCalls (since stB (fst (Shutdown stB))) =
      (n, v2) #
      (case out2 of
         Inr w \<Rightarrow> [(n, Undefined)]
       | Inl e \<Rightarrow> if instanceofGlobalTimeoutExceededError e then [] else [(n, v2)])"
    by simp
  have 1: "map name (serviceRegistrationsStaged st0) = [n, n]"
    by (simp add: st0 names)
  have 2: "map name (serviceRegistrations stB) = [n, n]"
    by (simp add: fB names)
  have 4: "getService stB n = v2"
    by (simp add: getService_def fB)
  from 1 2 fB(1) 4 5 show ?thesis
    unfolding stB_def st0_def n_def out2_def by simp
qed

theorem same_name_registrations_witness:
  "quietHandlers (observed (ProcessLifecycle None)) \<and>
   name (service ''foo'' (Resolves (Num 2)) (Resolves Undefined)) =
     name (service ''foo'' (Resolves (Num 1)) (Resolves Undefined)) \<and>
   map name (serviceRegistrations (fst (Boot sameName))) = [''foo'', ''foo''] \<and>
   getService (fst (Boot sameName)) ''foo'' = Num 2 \<and>
   shutdownCalls (since (fst (Boot sameName)) (fst (Shutdown (fst (Boot sameName))))) =
     [(''foo'', Num 2), (''foo'', Undefined)]"
proof -
  let ?st = "observed (ProcessLifecycle None)"
  let ?r1 = "service ''foo'' (Resolves (Num 1)) (Resolves Undefined)"
  let ?r2 = "service ''foo'' (Resolves (Num 2)) (Resolves Undefined)"
  have q: "quietHandlers ?st" by (rule quietHandlers_observed)
  have fresh: "\<not> aborted ?st" "serviceRegistrationsStaged ?st = []" "serviceRegistrations ?st = []"
    "services ?st = []" "bootProcess ?st = None" "shutdownProcess ?st = None"
    by (simp_all add: run_defs)
  have same: "name ?r2 = name ?r1" by (simp add: service_def)
  have b: "\<forall>h. awaitRace (boot ?r1 h) = Inr (Num 1)" "\<forall>h. awaitRace (boot ?r2 h) = Inr (Num 2)"
    by (simp_all add: service_def awaitRace_def)
  from same_name_registrations [OF q fresh same b] q same show ?thesis
    by (simp add: sameName_def service_def awaitRace_def)
qed

end
